theory Spec2Isabelle
  imports Main "HOL-Library.Word"
begin

section \<open>Strings of the host language\<close>

text \<open>
  A string of the source language is a sequence of 16-bit code units; \<open>length\<close> counts
  code units, as \<open>.length\<close> does.  Literals of the source are written with \<open>js\<close> from
  an ASCII literal, or as code-unit numerals.
\<close>

type_synonym jchar = "16 word"
type_synonym jstring = "jchar list"

definition js :: "string \<Rightarrow> jstring" where
  "js s = map of_char s"

definition NL :: jchar where "NL = 10"
definition PIPE :: jchar where "PIPE = 124"
definition SPACE :: jchar where "SPACE = 32"

text \<open>White space and line terminators: the class \<open>\s\<close>, which is also what \<open>trim\<close> strips.\<close>

definition isSpace :: "jchar \<Rightarrow> bool" where
  "isSpace c = (c = 9 \<or> c = 10 \<or> c = 11 \<or> c = 12 \<or> c = 13 \<or> c = 32 \<or> c = 0xA0
     \<or> c = 0x1680 \<or> (0x2000 \<le> c \<and> c \<le> 0x200A) \<or> c = 0x2028 \<or> c = 0x2029
     \<or> c = 0x202F \<or> c = 0x205F \<or> c = 0x3000 \<or> c = 0xFEFF)"

definition isLineTerminator :: "jchar \<Rightarrow> bool" where
  "isLineTerminator c = (c = 10 \<or> c = 13 \<or> c = 0x2028 \<or> c = 0x2029)"

definition isDigit :: "jchar \<Rightarrow> bool" where
  "isDigit c = (48 \<le> c \<and> c \<le> 57)"

definition trim :: "jstring \<Rightarrow> jstring" where
  "trim s = rev (dropWhile isSpace (rev (dropWhile isSpace s)))"

definition startsWith :: "jstring \<Rightarrow> jstring \<Rightarrow> bool" where
  "startsWith s p = (take (length p) s = p)"

text \<open>
  \<open>s.split(c)\<close> for a one-character separator: one more piece than there are
  separators.  The result is never empty (\<open>js_split_not_Nil\<close>), so the last case below is
  never taken.
\<close>

fun js_split :: "jchar \<Rightarrow> jstring \<Rightarrow> jstring list" where
  "js_split c [] = [[]]"
| "js_split c (x # xs) =
     (if x = c then [] # js_split c xs
      else case js_split c xs of
             piece # pieces \<Rightarrow> (x # piece) # pieces
           | [] \<Rightarrow> [[x]])"

text \<open>\<open>xs.join(sep)\<close>.\<close>

fun join :: "jstring \<Rightarrow> jstring list \<Rightarrow> jstring" where
  "join sep [] = []"
| "join sep [x] = x"
| "join sep (x # y # ys) = x @ sep @ join sep (y # ys)"

section \<open>Regular expressions with backtracking\<close>

text \<open>
  The patterns of the source are regular-expression literals.  They are transcribed as
  terms of \<open>rx\<close> and run by a matcher with the priorities of the backtracking
  semantics: \<open>rmatch r st\<close> lists, in order of preference, every way in which \<open>r\<close> can
  match at \<open>st\<close>; the head of the list is the match that is found.  A matcher state is
  the index reached, the input that remains, and the captures made so far (the most
  recent first).  An iteration of a star that consumes nothing is rejected.  A group
  inside a repetition keeps the capture of its latest iteration; the source has no
  pattern in which a group is skipped in a later iteration, so the reset of captures at
  the start of an iteration is not modelled.  There are no flags but \<open>g\<close>: a pattern
  works on code units, \<open>^\<close> and \<open>$\<close> are the ends of the input, and \<open>.\<close> is any code unit
  but a line terminator.
\<close>

datatype rx =
    Eps
  | Cls "jchar \<Rightarrow> bool"
  | Seq rx rx
  | Alt rx rx
  | Star bool rx
  | Grp nat rx
  | Bref nat
  | Bol
  | Eol
  | NLook rx

type_synonym captures = "(nat \<times> jstring) list"
type_synonym mstate = "nat \<times> jstring \<times> captures"

function rmatch :: "rx \<Rightarrow> mstate \<Rightarrow> mstate list" where
  "rmatch Eps st = [st]"
| "rmatch (Cls P) (i, s, c) =
     (case s of [] \<Rightarrow> [] | x # xs \<Rightarrow> if P x then [(Suc i, xs, c)] else [])"
| "rmatch (Seq a b) st = concat (map (rmatch b) (rmatch a st))"
| "rmatch (Alt a b) st = rmatch a st @ rmatch b st"
| "rmatch (Star g a) (i, s, c) =
     (let more = concat (map (\<lambda>(j, s', c').
                    if length s' < length s then rmatch (Star g a) (j, s', c') else [])
                  (rmatch a (i, s, c)))
      in if g then more @ [(i, s, c)] else (i, s, c) # more)"
| "rmatch (Grp n a) (i, s, c) =
     map (\<lambda>(j, s', c'). (j, s', (n, take (j - i) s) # c')) (rmatch a (i, s, c))"
| "rmatch (Bref n) (i, s, c) =
     (case map_of c n of
        None \<Rightarrow> [(i, s, c)]
      | Some w \<Rightarrow>
          if take (length w) s = w then [(i + length w, drop (length w) s, c)] else [])"
| "rmatch Bol (i, s, c) = (if i = 0 then [(i, s, c)] else [])"
| "rmatch Eol (i, s, c) = (if s = [] then [(i, s, c)] else [])"
| "rmatch (NLook a) st = (if rmatch a st = [] then [st] else [])"
  by pat_completeness auto
termination
  by (relation "inv_image (less_than <*lex*> less_than) (\<lambda>(r, (i, s, c)). (size r, length s))")
     auto

declare rmatch.simps [simp del]

text \<open>Derived forms: a literal character, \<open>r+\<close>, \<open>r?\<close>, \<open>r{0,n}\<close>, a sequence.\<close>

definition Chr :: "jchar \<Rightarrow> rx" where
  "Chr c = Cls (\<lambda>x. x = c)"

definition NotChr :: "jchar \<Rightarrow> rx" where
  "NotChr c = Cls (\<lambda>x. x \<noteq> c)"

definition Plus :: "bool \<Rightarrow> rx \<Rightarrow> rx" where
  "Plus g r = Seq r (Star g r)"

definition Opt :: "rx \<Rightarrow> rx" where
  "Opt r = Alt r Eps"

fun UpTo :: "nat \<Rightarrow> rx \<Rightarrow> rx" where
  "UpTo 0 r = Eps"
| "UpTo (Suc n) r = Alt (Seq r (UpTo n r)) Eps"

fun Seqs :: "rx list \<Rightarrow> rx" where
  "Seqs [] = Eps"
| "Seqs [r] = r"
| "Seqs (r # rs) = Seq r (Seqs rs)"

text \<open>
  Searching: the first index, from \<open>i\<close> on, at which the pattern matches, with the
  preferred match there (\<open>s\<close> is the input from \<open>i\<close> on).
\<close>

fun rx_search :: "rx \<Rightarrow> nat \<Rightarrow> jstring \<Rightarrow> (nat \<times> mstate) option" where
  "rx_search r i [] =
     (case rmatch r (i, [], []) of [] \<Rightarrow> None | m # _ \<Rightarrow> Some (i, m))"
| "rx_search r i (x # xs) =
     (case rmatch r (i, x # xs, []) of
        [] \<Rightarrow> rx_search r (Suc i) xs
      | m # _ \<Rightarrow> Some (i, m))"

definition rx_test :: "rx \<Rightarrow> jstring \<Rightarrow> bool" where
  "rx_test r s = (rx_search r 0 s \<noteq> None)"

text \<open>The text of capture group \<open>n\<close>; the empty string when the group took no part.\<close>

definition cap :: "captures \<Rightarrow> nat \<Rightarrow> jstring" where
  "cap c n = (case map_of c n of None \<Rightarrow> [] | Some w \<Rightarrow> w)"

text \<open>\<open>s.match(r)\<close> without the global flag: the captures of the first match, if any.\<close>

definition rx_exec :: "rx \<Rightarrow> jstring \<Rightarrow> captures option" where
  "rx_exec r s =
     (case rx_search r 0 s of None \<Rightarrow> None | Some (i, (j, s', c)) \<Rightarrow> Some c)"

text \<open>Replacement templates: literal text and \<open>$n\<close>.\<close>

datatype tpl = Lit jstring | Ref nat

fun expand :: "captures \<Rightarrow> tpl list \<Rightarrow> jstring" where
  "expand c [] = []"
| "expand c (Lit w # t) = w @ expand c t"
| "expand c (Ref n # t) = cap c n @ expand c t"

text \<open>\<open>s.replace(r, t)\<close> without the global flag: the first match only.\<close>

definition replace_first :: "rx \<Rightarrow> tpl list \<Rightarrow> jstring \<Rightarrow> jstring" where
  "replace_first r t s =
     (case rx_search r 0 s of
        None \<Rightarrow> s
      | Some (i, (j, s', c)) \<Rightarrow> take i s @ expand c t @ s')"

text \<open>
  \<open>s.replace(r, t)\<close> with the global flag, from index \<open>i\<close> on (\<open>s\<close> is the input from
  \<open>i\<close> on): every match, from left to right, none overlapping; after an empty match the
  search moves one code unit on.
\<close>

function replace_from :: "rx \<Rightarrow> tpl list \<Rightarrow> nat \<Rightarrow> jstring \<Rightarrow> jstring" where
  "replace_from r t i s =
     (case rmatch r (i, s, []) of
        [] \<Rightarrow> (case s of [] \<Rightarrow> [] | x # xs \<Rightarrow> x # replace_from r t (Suc i) xs)
      | (j, s', c) # _ \<Rightarrow>
          if length s' < length s then expand c t @ replace_from r t j s'
          else expand c t @ (case s of [] \<Rightarrow> [] | x # xs \<Rightarrow> x # replace_from r t (Suc i) xs))"
  by pat_completeness auto
termination
  by (relation "measure (\<lambda>(r, t, i, s). length s)") auto

declare replace_from.simps [simp del]

definition replace_all :: "rx \<Rightarrow> tpl list \<Rightarrow> jstring \<Rightarrow> jstring" where
  "replace_all r t s = replace_from r t 0 s"

section \<open>The renderer\<close>

subsection \<open>Data\<close>

record TableState =
  header :: "jstring list"
  rows :: "jstring list list"

record RendererState =
  buffer :: jstring
  pendingLines :: "jstring list"
  inCodeBlock :: bool
  tableState :: "TableState option"

text \<open>The escape sequences of the table \<open>ansi\<close>.\<close>

definition ESC :: jchar where "ESC = 0x1B"

definition ansi_reset :: jstring where "ansi_reset = ESC # js ''[0m''"
definition ansi_boldOn :: jstring where "ansi_boldOn = ESC # js ''[1m''"
definition ansi_boldOff :: jstring where "ansi_boldOff = ESC # js ''[22m''"
definition ansi_italicOn :: jstring where "ansi_italicOn = ESC # js ''[3m''"
definition ansi_italicOff :: jstring where "ansi_italicOff = ESC # js ''[23m''"
definition ansi_strikeOn :: jstring where "ansi_strikeOn = ESC # js ''[9m''"
definition ansi_strikeOff :: jstring where "ansi_strikeOff = ESC # js ''[29m''"
definition ansi_underlineOn :: jstring where "ansi_underlineOn = ESC # js ''[4m''"
definition ansi_underlineOff :: jstring where "ansi_underlineOff = ESC # js ''[24m''"
definition ansi_dimOn :: jstring where "ansi_dimOn = ESC # js ''[2m''"
definition ansi_dimOff :: jstring where "ansi_dimOff = ESC # js ''[22m''"
definition ansi_cyanOn :: jstring where "ansi_cyanOn = ESC # js ''[36m''"
definition ansi_cyanOff :: jstring where "ansi_cyanOff = ESC # js ''[39m''"
definition ansi_codeOn :: jstring where "ansi_codeOn = ESC # js ''[36m''"
definition ansi_codeOff :: jstring where "ansi_codeOff = ESC # js ''[39m''"
definition ansi_headingOn :: jstring where "ansi_headingOn = ESC # js ''[1m'' @ ESC # js ''[36m''"
definition ansi_headingOff :: jstring where "ansi_headingOff = ESC # js ''[22m'' @ ESC # js ''[39m''"

definition createInitialState :: RendererState where
  "createInitialState =
     \<lparr>buffer = [], pendingLines = [], inCodeBlock = False, tableState = None\<rparr>"

subsection \<open>Line classification\<close>

text \<open>\<^verbatim>\<open>/\x1b\[[0-9;]*m/g\<close>\<close>

definition rx_ansi :: rx where
  "rx_ansi = Seqs [Chr ESC, Chr 91, Star True (Cls (\<lambda>c. isDigit c \<or> c = 59)), Chr 109]"

definition stripAnsi :: "jstring \<Rightarrow> jstring" where
  "stripAnsi v = replace_all rx_ansi [] v"

definition isFence :: "jstring \<Rightarrow> bool" where
  "isFence line = startsWith (trim line) (js ''```'')"

text \<open>\<^verbatim>\<open>/^\s*\|?(\s*:?-+:?\s*\|)+\s*:?-+:?\s*\|?\s*$/\<close>\<close>

definition rx_ws :: rx where
  "rx_ws = Star True (Cls isSpace)"

definition rx_dashes :: rx where
  "rx_dashes = Seqs [rx_ws, Opt (Chr 58), Plus True (Chr 45), Opt (Chr 58), rx_ws]"

definition rx_separator :: rx where
  "rx_separator =
     Seqs [Bol, rx_ws, Opt (Chr PIPE),
           Plus True (Grp 1 (Seq rx_dashes (Chr PIPE))),
           rx_dashes, Opt (Chr PIPE), rx_ws, Eol]"

definition isTableSeparator :: "jstring \<Rightarrow> bool" where
  "isTableSeparator line = rx_test rx_separator line"

definition isTableRow :: "jstring \<Rightarrow> bool" where
  "isTableRow line = (PIPE \<in> set line)"

text \<open>\<^verbatim>\<open>/^\|/\<close> and \<^verbatim>\<open>/\|$/\<close>\<close>

definition parseTableRow :: "jstring \<Rightarrow> jstring list" where
  "parseTableRow line =
     (let trimmed = replace_first (Seq (Chr PIPE) Eol) []
                      (replace_first (Seq Bol (Chr PIPE)) [] (trim line))
      in map trim (js_split PIPE trimmed))"

subsection \<open>Inline styling\<close>

text \<open>
  The six patterns of \<open>renderInline\<close>, in its order:
  \<^verbatim>\<open>/`([^`]+)`/g\<close>,
  \<^verbatim>\<open>/~~([^~]+)~~/g\<close>,
  \<^verbatim>\<open>/(\*\*|__)(.+?)\1/g\<close>,
  \<^verbatim>\<open>/(^|[^*])\*([^*]+)\*(?!\*)/g\<close>,
  \<^verbatim>\<open>/(^|[^_])_([^_]+)_(?!_)/g\<close> and
  \<^verbatim>\<open>/\[([^\]]+)\]\(([^)]+)\)/g\<close>.
\<close>

definition rx_code :: rx where
  "rx_code = Seqs [Chr 96, Grp 1 (Plus True (NotChr 96)), Chr 96]"

definition rx_strike :: rx where
  "rx_strike = Seqs [Chr 126, Chr 126, Grp 1 (Plus True (NotChr 126)), Chr 126, Chr 126]"

definition rx_dot :: rx where
  "rx_dot = Cls (\<lambda>c. \<not> isLineTerminator c)"

definition rx_bold :: rx where
  "rx_bold = Seqs [Grp 1 (Alt (Seq (Chr 42) (Chr 42)) (Seq (Chr 95) (Chr 95))),
                   Grp 2 (Plus False rx_dot), Bref 1]"

definition rx_italic :: "jchar \<Rightarrow> rx" where
  "rx_italic m = Seqs [Grp 1 (Alt Bol (NotChr m)), Chr m, Grp 2 (Plus True (NotChr m)),
                       Chr m, NLook (Chr m)]"

definition rx_link :: rx where
  "rx_link = Seqs [Chr 91, Grp 1 (Plus True (NotChr 93)), Chr 93,
                   Chr 40, Grp 2 (Plus True (NotChr 41)), Chr 41]"

definition renderInline :: "jstring \<Rightarrow> jstring" where
  "renderInline text =
     (let output = text;
          output = replace_all rx_code [Lit ansi_codeOn, Ref 1, Lit ansi_codeOff] output;
          output = replace_all rx_strike [Lit ansi_strikeOn, Ref 1, Lit ansi_strikeOff] output;
          output = replace_all rx_bold [Lit ansi_boldOn, Ref 2, Lit ansi_boldOff] output;
          output = replace_all (rx_italic 42)
                     [Ref 1, Lit ansi_italicOn, Ref 2, Lit ansi_italicOff] output;
          output = replace_all (rx_italic 95)
                     [Ref 1, Lit ansi_italicOn, Ref 2, Lit ansi_italicOff] output;
          output = replace_all rx_link
                     [Lit ansi_underlineOn, Lit ansi_cyanOn, Ref 1, Lit ansi_underlineOff,
                      Lit ansi_cyanOff, Lit (js '' (''), Ref 2, Lit (js '')'')] output
      in output)"

subsection \<open>Tables\<close>

text \<open>The length of a cell as it shows: styled, then stripped of escape sequences.\<close>

definition visibleLength :: "jstring \<Rightarrow> nat" where
  "visibleLength cell = length (stripAnsi (renderInline cell))"

text \<open>
  \<open>widths[index] = Math.max(widths[index] ?? 0, length, 3)\<close>.  An index below the length
  overwrites, the index equal to the length appends.  The inner \<open>forEach\<close> visits the
  indices 0, 1, 2, ... in order and the array grows with them (\<open>widthsRow_length\<close>), so
  no index beyond the length is ever written; the last branch covers that case, in
  which the source would leave holes, and is never taken.
\<close>

definition setWidth :: "nat list \<Rightarrow> nat \<Rightarrow> nat \<Rightarrow> nat list" where
  "setWidth widths index len =
     (let v = max (if index < length widths then widths ! index else 0) (max len 3)
      in if index < length widths then widths[index := v]
         else widths @ replicate (index - length widths) 0 @ [v])"

fun widthsRow :: "nat list \<Rightarrow> nat \<Rightarrow> jstring list \<Rightarrow> nat list" where
  "widthsRow widths index [] = widths"
| "widthsRow widths index (cell # cells) =
     widthsRow (setWidth widths index (visibleLength cell)) (Suc index) cells"

definition allRows :: "TableState \<Rightarrow> jstring list list" where
  "allRows table = header table # rows table"

definition tableWidths :: "TableState \<Rightarrow> nat list" where
  "tableWidths table = fold (\<lambda>row widths. widthsRow widths 0 row) (allRows table) []"

text \<open>\<open>row[index] ?? ''\<close>\<close>

definition cellAt :: "jstring list \<Rightarrow> nat \<Rightarrow> jstring" where
  "cellAt row index = (if index < length row then row ! index else [])"

definition renderCell :: "jstring list \<Rightarrow> bool \<Rightarrow> nat \<Rightarrow> nat \<Rightarrow> jstring" where
  "renderCell row isHeader width index =
     (let value = cellAt row index;
          styled = renderInline value;
          padding = int width - int (length (stripAnsi styled));
          padded = styled @ replicate (nat (max 0 padding)) SPACE
      in if \<not> isHeader then padded
         else ansi_boldOn @ ansi_cyanOn @ padded @ ansi_boldOff @ ansi_cyanOff)"

definition renderCells :: "nat list \<Rightarrow> jstring list \<Rightarrow> bool \<Rightarrow> jstring list" where
  "renderCells widths row isHeader =
     map (\<lambda>(width, index). renderCell row isHeader width index)
         (zip widths [0..<length widths])"

definition renderRow :: "nat list \<Rightarrow> jstring list \<Rightarrow> bool \<Rightarrow> jstring" where
  "renderRow widths row isHeader =
     js ''| '' @ join (js '' | '') (renderCells widths row isHeader) @ js '' |''"

definition renderSeparator :: "nat list \<Rightarrow> jstring" where
  "renderSeparator widths =
     js ''| '' @ join (js '' | '') (map (\<lambda>width. replicate width 45) widths) @ js '' |''"

definition renderTable :: "TableState \<Rightarrow> jstring" where
  "renderTable table =
     (let widths = tableWidths table;
          lines = [renderRow widths (header table) True, renderSeparator widths]
                  @ map (\<lambda>row. renderRow widths row False) (rows table)
      in join [NL] lines)"

subsection \<open>Generic lines\<close>

text \<open>\<^verbatim>\<open>/^\s*(#{1,6})\s+(.*)$/\<close>\<close>

definition rx_heading :: rx where
  "rx_heading =
     Seqs [Bol, rx_ws, Grp 1 (Seq (Chr 35) (UpTo 5 (Chr 35))), Plus True (Cls isSpace),
           Grp 2 (Star True rx_dot), Eol]"

text \<open>\<^verbatim>\<open>/^\s*(-{3,}|\*{3,}|_{3,})\s*$/\<close>\<close>

definition rx_three :: "jchar \<Rightarrow> rx" where
  "rx_three m = Seqs [Chr m, Chr m, Chr m, Star True (Chr m)]"

definition rx_hr :: rx where
  "rx_hr = Seqs [Bol, rx_ws, Grp 1 (Alt (rx_three 45) (Alt (rx_three 42) (rx_three 95))),
                 rx_ws, Eol]"

text \<open>\<^verbatim>\<open>/^(\s*)>\s?(.*)$/\<close>\<close>

definition rx_blockquote :: rx where
  "rx_blockquote =
     Seqs [Bol, Grp 1 rx_ws, Chr 62, Opt (Cls isSpace), Grp 2 (Star True rx_dot), Eol]"

text \<open>\<^verbatim>\<open>/^(\s*)(\d+)\.\s+(.*)$/\<close>\<close>

definition rx_ordered :: rx where
  "rx_ordered =
     Seqs [Bol, Grp 1 rx_ws, Grp 2 (Plus True (Cls isDigit)), Chr 46, Plus True (Cls isSpace),
           Grp 3 (Star True rx_dot), Eol]"

text \<open>\<^verbatim>\<open>/^(\s*)[-*+]\s+(.*)$/\<close>\<close>

definition rx_unordered :: rx where
  "rx_unordered =
     Seqs [Bol, Grp 1 rx_ws, Cls (\<lambda>c. c = 45 \<or> c = 42 \<or> c = 43), Plus True (Cls isSpace),
           Grp 2 (Star True rx_dot), Eol]"

definition renderLine :: "jstring \<Rightarrow> jstring" where
  "renderLine line =
     (if trim line = [] then []
      else case rx_exec rx_heading line of
        Some headingMatch \<Rightarrow>
          ansi_headingOn @ renderInline (trim (cap headingMatch 2)) @ ansi_headingOff
      | None \<Rightarrow>
      (case rx_exec rx_hr line of
        Some hrMatch \<Rightarrow> ansi_dimOn @ replicate 40 0x2500 @ ansi_dimOff
      | None \<Rightarrow>
      (case rx_exec rx_blockquote line of
        Some blockquoteMatch \<Rightarrow>
          cap blockquoteMatch 1 @ ansi_dimOn @ [0x2502] @ ansi_dimOff @ [SPACE]
            @ renderInline (trim (cap blockquoteMatch 2))
      | None \<Rightarrow>
      (case rx_exec rx_ordered line of
        Some orderedMatch \<Rightarrow>
          cap orderedMatch 1 @ cap orderedMatch 2 @ js ''. ''
            @ renderInline (cap orderedMatch 3)
      | None \<Rightarrow>
      (case rx_exec rx_unordered line of
        Some unorderedMatch \<Rightarrow>
          cap unorderedMatch 1 @ [0x2022, SPACE] @ renderInline (cap unorderedMatch 2)
      | None \<Rightarrow> renderInline line)))))"

subsection \<open>The stream assembler and block router\<close>

text \<open>
  A renderer is its state together with the strings its writer has been called with so
  far, oldest first.
\<close>

type_synonym renderer = "RendererState \<times> jstring list"

definition createMarkdownRenderer :: renderer where
  "createMarkdownRenderer = (createInitialState, [])"

text \<open>
  One iteration of the loop of \<open>processPending\<close>: \<open>None\<close> when the loop is left (no
  pending line, or the \<open>break\<close>), otherwise the renderer after the iteration.
\<close>

definition drainStep :: "bool \<Rightarrow> renderer \<Rightarrow> renderer option" where
  "drainStep final r =
     (case r of (state, out) \<Rightarrow>
      case pendingLines state of
        [] \<Rightarrow> None
      | line # rest \<Rightarrow>
     (case tableState state of
        Some table \<Rightarrow>
          if isTableRow line \<and> \<not> isTableSeparator line
          then Some (state\<lparr>tableState := Some (table\<lparr>rows := rows table @ [parseTableRow line]\<rparr>),
                            pendingLines := rest\<rparr>, out)
          else Some (state\<lparr>tableState := None\<rparr>, out @ [renderTable table @ [NL]])
      | None \<Rightarrow>
          if inCodeBlock state then
            if isFence line
            then Some (state\<lparr>pendingLines := rest, inCodeBlock := False\<rparr>,
                       out @ [ansi_codeOff @ [NL]])
            else Some (state\<lparr>pendingLines := rest\<rparr>, out @ [line @ [NL]])
          else if isFence line
          then Some (state\<lparr>inCodeBlock := True, pendingLines := rest\<rparr>,
                     out @ [ansi_codeOn @ [NL]])
          else if isTableRow line \<and> length (pendingLines state) < 2 \<and> \<not> final
          then None
          else if isTableRow line
                  \<and> (case rest of [] \<Rightarrow> False
                      | separator # _ \<Rightarrow> separator \<noteq> [] \<and> isTableSeparator separator)
          then Some (state\<lparr>tableState := Some \<lparr>header = parseTableRow line, rows = []\<rparr>,
                            pendingLines := tl rest\<rparr>, out)
          else Some (state\<lparr>pendingLines := rest\<rparr>, out @ [renderLine line @ [NL]])))"

text \<open>What an iteration uses up: pending lines first, and an open table last.\<close>

definition drainMeasure :: "renderer \<Rightarrow> nat" where
  "drainMeasure r =
     2 * length (pendingLines (fst r)) + (if tableState (fst r) = None then 0 else 1)"

function processPending :: "bool \<Rightarrow> renderer \<Rightarrow> renderer" where
  "processPending final r =
     (case drainStep final r of None \<Rightarrow> r | Some r' \<Rightarrow> processPending final r')"
  by pat_completeness auto
termination
  by (relation "measure (\<lambda>(final, r). drainMeasure r)")
     (auto simp: drainStep_def drainMeasure_def
           split: prod.splits list.splits option.splits if_splits)

declare processPending.simps [simp del]

text \<open>
  The method \<open>write\<close> (the name alone is a keyword of the prover): the chunk joins the
  buffer, the complete lines join the pending lines, the rest stays in the buffer; then
  the pending lines are drained.
\<close>

definition pushLines :: "renderer \<Rightarrow> jstring \<Rightarrow> renderer" where
  "pushLines r chunk =
     (case r of (state, out) \<Rightarrow>
      let lines = js_split NL (buffer state @ chunk)
      in (state\<lparr>buffer := last lines,
                 pendingLines := pendingLines state @ butlast lines\<rparr>, out))"

definition write_chunk :: "renderer \<Rightarrow> jstring \<Rightarrow> renderer" where
  "write_chunk r chunk = processPending False (pushLines r chunk)"

text \<open>The method \<open>flush\<close>, in its four steps.\<close>

definition pushBuffer :: "renderer \<Rightarrow> renderer" where
  "pushBuffer r =
     (case r of (state, out) \<Rightarrow>
      if buffer state \<noteq> []
      then (state\<lparr>pendingLines := pendingLines state @ [buffer state], buffer := []\<rparr>, out)
      else (state, out))"

definition closeTable :: "renderer \<Rightarrow> renderer" where
  "closeTable r =
     (case r of (state, out) \<Rightarrow>
      case tableState state of
        Some table \<Rightarrow> (state\<lparr>tableState := None\<rparr>, out @ [renderTable table @ [NL]])
      | None \<Rightarrow> (state, out))"

definition closeCode :: "renderer \<Rightarrow> renderer" where
  "closeCode r =
     (case r of (state, out) \<Rightarrow>
      if inCodeBlock state
      then (state\<lparr>inCodeBlock := False\<rparr>, out @ [ansi_codeOff @ [NL]])
      else (state, out))"

definition flush :: "renderer \<Rightarrow> renderer" where
  "flush r = closeCode (closeTable (processPending True (pushBuffer r)))"

text \<open>
  The same loop with a bound on the number of iterations: \<open>None\<close> when the bound is used
  up before the loop is left.
\<close>

fun drainN :: "nat \<Rightarrow> bool \<Rightarrow> renderer \<Rightarrow> renderer option" where
  "drainN 0 final r = None"
| "drainN (Suc n) final r =
     (case drainStep final r of None \<Rightarrow> Some r | Some r' \<Rightarrow> drainN n final r')"

subsection \<open>The points of a run\<close>

text \<open>
  The renderer at the head of the loop of \<open>processPending\<close>, before each iteration and
  when the loop is left.
\<close>

function drainPoints :: "bool \<Rightarrow> renderer \<Rightarrow> renderer list" where
  "drainPoints final r =
     r # (case drainStep final r of None \<Rightarrow> [] | Some r' \<Rightarrow> drainPoints final r')"
  by pat_completeness auto
termination
  by (relation "measure (\<lambda>(final, r). drainMeasure r)")
     (auto simp: drainStep_def drainMeasure_def
           split: prod.splits list.splits option.splits if_splits)

declare drainPoints.simps [simp del]

text \<open>The renderer after each step of \<open>write\<close> and of \<open>flush\<close>.\<close>

definition writePoints :: "renderer \<Rightarrow> jstring \<Rightarrow> renderer list" where
  "writePoints r chunk = drainPoints False (pushLines r chunk)"

definition flushPoints :: "renderer \<Rightarrow> renderer list" where
  "flushPoints r =
     (let drained = processPending True (pushBuffer r)
      in drainPoints True (pushBuffer r)
         @ [closeTable drained, closeCode (closeTable drained)])"

text \<open>Every point of a run: the chunks written one after the other, then \<open>flush\<close>.\<close>

fun runPoints :: "renderer \<Rightarrow> jstring list \<Rightarrow> renderer list" where
  "runPoints r [] = r # flushPoints r"
| "runPoints r (chunk # chunks) =
     r # writePoints r chunk @ runPoints (write_chunk r chunk) chunks"

text \<open>
  The renderers that can come up at all, by the steps that change one: from the initial
  one, by the steps of \<open>write\<close> and \<open>flush\<close> in any order.
\<close>

inductive reach :: "renderer \<Rightarrow> bool" where
  reach_init: "reach createMarkdownRenderer"
| reach_pushLines: "reach r \<Longrightarrow> reach (pushLines r chunk)"
| reach_drainStep: "reach r \<Longrightarrow> drainStep final r = Some r' \<Longrightarrow> reach r'"
| reach_pushBuffer: "reach r \<Longrightarrow> reach (pushBuffer r)"
| reach_closeTable: "reach r \<Longrightarrow> reach (closeTable r)"
| reach_closeCode: "reach r \<Longrightarrow> reach (closeCode r)"

text \<open>
  For the proofs: the renderer with more lines at the end of the queue and another
  buffer, which is all that \<open>pushLines\<close> does to it.
\<close>

definition feed :: "jstring list \<Rightarrow> jstring \<Rightarrow> renderer \<Rightarrow> renderer" where
  "feed q b r =
     (case r of (state, out) \<Rightarrow>
        (state\<lparr>buffer := b, pendingLines := pendingLines state @ q\<rparr>, out))"

subsection \<open>Separator lines, as they are built\<close>

text \<open>
  A dash cell: white space, an optional colon, one or more dashes, an optional colon,
  white space.  A separator line: white space, an optional pipe, two or more dash cells
  with one pipe between neighbours, an optional pipe, white space.
\<close>

definition dashCell :: "jstring \<Rightarrow> bool \<Rightarrow> nat \<Rightarrow> bool \<Rightarrow> jstring \<Rightarrow> jstring" where
  "dashCell l c1 n c2 t =
     l @ (if c1 then [58] else []) @ replicate (Suc n) 45 @ (if c2 then [58] else []) @ t"

type_synonym cellShape = "jstring \<times> bool \<times> nat \<times> bool \<times> jstring"

definition cellOf :: "cellShape \<Rightarrow> jstring" where
  "cellOf sh = (case sh of (l, c1, n, c2, t) \<Rightarrow> dashCell l c1 n c2 t)"

definition cellShapeOk :: "cellShape \<Rightarrow> bool" where
  "cellShapeOk sh = (case sh of (l, c1, n, c2, t) \<Rightarrow> list_all isSpace l \<and> list_all isSpace t)"

definition separatorLine ::
  "jstring \<Rightarrow> bool \<Rightarrow> cellShape list \<Rightarrow> bool \<Rightarrow> jstring \<Rightarrow> jstring" where
  "separatorLine ws1 lead shapes trail ws2 =
     ws1 @ (if lead then [PIPE] else []) @ join [PIPE] (map cellOf shapes)
         @ (if trail then [PIPE] else []) @ ws2"

text \<open>
  For the proofs: the pattern \<open>r\<close> can match exactly \<open>x\<close>, whatever follows, wherever it
  starts and whatever was captured before; and it can match \<open>x\<close> up to the end of input.
\<close>

definition can :: "rx \<Rightarrow> jstring \<Rightarrow> bool" where
  "can r x = (\<forall>i s c. \<exists>c'. (i + length x, s, c') \<in> set (rmatch r (i, x @ s, c)))"

definition fin :: "rx \<Rightarrow> jstring \<Rightarrow> bool" where
  "fin r x = (\<forall>i c. \<exists>c'. (i + length x, [], c') \<in> set (rmatch r (i, x, c)))"

text \<open>
  For the proofs: what is left of a string after the escape sequence at its head, if it
  starts with one.
\<close>

definition ansiRest :: "jstring \<Rightarrow> jstring option" where
  "ansiRest s =
     (case s of
        e # b # t \<Rightarrow>
          if e = ESC \<and> b = 91
          then (case dropWhile (\<lambda>c. isDigit c \<or> c = 59) t of
                  [] \<Rightarrow> None
                | x # u \<Rightarrow> if x = 109 then Some u else None)
          else None
      | _ \<Rightarrow> None)"

section \<open>The drain loop\<close>

lemma drainStep_decreases:
  "drainStep final r = Some r' \<Longrightarrow> drainMeasure r' < drainMeasure r"
  by (auto simp: drainStep_def drainMeasure_def
           split: prod.splits list.splits option.splits if_splits)

lemma drainStep_None_iff:
  "drainStep final (state, out) = None \<longleftrightarrow>
     pendingLines state = [] \<or>
     (tableState state = None \<and> \<not> inCodeBlock state \<and> \<not> final
      \<and> (\<exists>line. pendingLines state = [line] \<and> \<not> isFence line \<and> isTableRow line))"
  by (cases "pendingLines state"; cases "tableState state"; cases "tl (pendingLines state)")
     (auto simp: drainStep_def)

lemma processPending_None:
  "drainStep final r = None \<Longrightarrow> processPending final r = r"
  by (simp add: processPending.simps)

lemma processPending_Some:
  "drainStep final r = Some r' \<Longrightarrow> processPending final r = processPending final r'"
  by (simp add: processPending.simps)

lemma drainStep_progress:
  "drainStep final r = Some r' \<Longrightarrow>
     length (pendingLines (fst r')) < length (pendingLines (fst r))
     \<or> (tableState (fst r) \<noteq> None \<and> tableState (fst r') = None
        \<and> pendingLines (fst r') = pendingLines (fst r))"
  by (auto simp: drainStep_def split: prod.splits list.splits option.splits if_splits)

lemma drainN_enough:
  "drainMeasure r < n \<Longrightarrow> drainN n final r = Some (processPending final r)"
proof (induction n arbitrary: r)
  case 0
  then show ?case by simp
next
  case (Suc n)
  show ?case
  proof (cases "drainStep final r")
    case None
    then show ?thesis by (simp add: processPending_None)
  next
    case (Some r')
    from drainStep_decreases [OF Some] Suc.prems have "drainMeasure r' < n" by simp
    with Suc.IH Some show ?thesis by (simp add: processPending_Some)
  qed
qed

lemma processPending_final_empty:
  "pendingLines (fst (processPending True r)) = []"
proof (induction "True" r rule: processPending.induct)
  case (1 r)
  show ?case
  proof (cases "drainStep True r")
    case None
    then show ?thesis
      by (cases r) (simp add: processPending_None drainStep_None_iff)
  next
    case (Some r')
    with 1 show ?thesis by (simp add: processPending_Some)
  qed
qed

text \<open>
  Claim C10.  From every renderer state, final or not, the loop of \<open>processPending\<close> is
  left: an iteration removes a pending line, or it closes the open table and keeps the
  pending lines, so the loop is left after at most \<open>2 * length pendingLines + 1\<close>
  iterations; in final mode no pending line remains.
\<close>

theorem processPending_terminates:
  "(drainStep final r = Some r' \<longrightarrow>
      length (pendingLines (fst r')) < length (pendingLines (fst r))
      \<or> (tableState (fst r) \<noteq> None \<and> tableState (fst r') = None
         \<and> pendingLines (fst r') = pendingLines (fst r)))
   \<and> drainN (Suc (drainMeasure r)) final r = Some (processPending final r)
   \<and> pendingLines (fst (processPending True r)) = []"
  using drainStep_progress [of final r r'] drainN_enough [of r "Suc (drainMeasure r)" final]
    processPending_final_empty [of r]
  by blast

theorem processPending_terminates_witness:
  "drainStep True (\<lparr>buffer = [], pendingLines = [js ''x''], inCodeBlock = True,
                    tableState = None\<rparr>, [])
     = Some (\<lparr>buffer = [], pendingLines = [], inCodeBlock = True, tableState = None\<rparr>,
             [js ''x'' @ [NL]])
   \<and> length (pendingLines (fst (\<lparr>buffer = [], pendingLines = [], inCodeBlock = True,
                                  tableState = None\<rparr>, [js ''x'' @ [NL]])))
       < length (pendingLines (fst (\<lparr>buffer = [], pendingLines = [js ''x''],
                                     inCodeBlock = True, tableState = None\<rparr>, [])))"
proof -
  have h: "drainStep True (\<lparr>buffer = [], pendingLines = [js ''x''], inCodeBlock = True,
                            tableState = None\<rparr>, [])
     = Some (\<lparr>buffer = [], pendingLines = [], inCodeBlock = True, tableState = None\<rparr>,
             [js ''x'' @ [NL]])"
    by code_simp
  from processPending_terminates [of True
     "(\<lparr>buffer = [], pendingLines = [js ''x''], inCodeBlock = True, tableState = None\<rparr>, [])"
     "(\<lparr>buffer = [], pendingLines = [], inCodeBlock = True, tableState = None\<rparr>,
       [js ''x'' @ [NL]])"] h
  show ?thesis by simp
qed

subsection \<open>The iterations, case by case\<close>

lemma isTableSeparator_empty: "\<not> isTableSeparator []"
  by code_simp

lemma drainStep_table_row:
  "\<lbrakk>pendingLines state = line # rest; tableState state = Some table;
    isTableRow line; \<not> isTableSeparator line\<rbrakk>
   \<Longrightarrow> drainStep final (state, out) =
       Some (state\<lparr>tableState := Some (table\<lparr>rows := rows table @ [parseTableRow line]\<rparr>),
                   pendingLines := rest\<rparr>, out)"
  by (simp add: drainStep_def)

lemma drainStep_table_end:
  "\<lbrakk>pendingLines state = line # rest; tableState state = Some table;
    \<not> (isTableRow line \<and> \<not> isTableSeparator line)\<rbrakk>
   \<Longrightarrow> drainStep final (state, out) =
       Some (state\<lparr>tableState := None\<rparr>, out @ [renderTable table @ [NL]])"
  by (auto simp add: drainStep_def)

lemma drainStep_code:
  "\<lbrakk>pendingLines state = line # rest; tableState state = None; inCodeBlock state\<rbrakk>
   \<Longrightarrow> drainStep final (state, out) =
       Some (if isFence line
             then (state\<lparr>pendingLines := rest, inCodeBlock := False\<rparr>,
                   out @ [ansi_codeOff @ [NL]])
             else (state\<lparr>pendingLines := rest\<rparr>, out @ [line @ [NL]]))"
  by (simp add: drainStep_def)

lemma drainStep_fence:
  "\<lbrakk>pendingLines state = line # rest; tableState state = None; \<not> inCodeBlock state;
    isFence line\<rbrakk>
   \<Longrightarrow> drainStep final (state, out) =
       Some (state\<lparr>inCodeBlock := True, pendingLines := rest\<rparr>, out @ [ansi_codeOn @ [NL]])"
  by (simp add: drainStep_def)

lemma drainStep_candidate:
  "\<lbrakk>pendingLines state = line # rest; tableState state = None; \<not> inCodeBlock state;
    \<not> isFence line; isTableRow line\<rbrakk>
   \<Longrightarrow> drainStep final (state, out) =
       (if rest = [] \<and> \<not> final then None
        else if rest \<noteq> [] \<and> isTableSeparator (hd rest)
        then Some (state\<lparr>tableState := Some \<lparr>header = parseTableRow line, rows = []\<rparr>,
                         pendingLines := tl rest\<rparr>, out)
        else Some (state\<lparr>pendingLines := rest\<rparr>, out @ [renderLine line @ [NL]]))"
  by (cases rest) (auto simp add: drainStep_def isTableSeparator_empty)

lemma drainStep_plain:
  "\<lbrakk>pendingLines state = line # rest; tableState state = None; \<not> inCodeBlock state;
    \<not> isFence line; \<not> isTableRow line\<rbrakk>
   \<Longrightarrow> drainStep final (state, out) =
       Some (state\<lparr>pendingLines := rest\<rparr>, out @ [renderLine line @ [NL]])"
  by (simp add: drainStep_def)

subsection \<open>What the loop leaves alone\<close>

lemma drainStep_buffer:
  "drainStep final r = Some r' \<Longrightarrow> buffer (fst r') = buffer (fst r)"
  by (auto simp: drainStep_def split: prod.splits list.splits option.splits if_splits)

lemma processPending_buffer:
  "buffer (fst (processPending final r)) = buffer (fst r)"
proof (induction final r rule: processPending.induct)
  case (1 final r)
  show ?case
  proof (cases "drainStep final r")
    case None
    then show ?thesis by (simp add: processPending_None)
  next
    case (Some r')
    with 1 drainStep_buffer [OF Some] show ?thesis by (simp add: processPending_Some)
  qed
qed

lemma js_split_not_Nil: "js_split c s \<noteq> []"
  by (induction s) (auto split: list.splits)

lemma last_js_split: "c \<notin> set (last (js_split c s))"
proof (induction s)
  case Nil
  then show ?case by simp
next
  case (Cons x s)
  then show ?case
    by (cases "js_split c s") (auto simp: js_split_not_Nil)
qed

lemma buffer_pushLines: "NL \<notin> set (buffer (fst (pushLines r chunk)))"
  by (cases r) (simp add: pushLines_def Let_def last_js_split)

lemma buffer_pushBuffer: "buffer (fst (pushBuffer r)) = []"
  by (cases r) (simp add: pushBuffer_def)

lemma buffer_closeTable: "buffer (fst (closeTable r)) = buffer (fst r)"
  by (cases r) (simp add: closeTable_def split: option.splits)

lemma buffer_closeCode: "buffer (fst (closeCode r)) = buffer (fst r)"
  by (cases r) (simp add: closeCode_def)

text \<open>
  Claim C9.  When \<open>write\<close> returns and when \<open>flush\<close> returns, whatever the renderer and
  the chunk were, the buffer holds no newline character.
\<close>

theorem buffer_has_no_newline:
  "NL \<notin> set (buffer (fst (write_chunk r chunk))) \<and> NL \<notin> set (buffer (fst (flush r)))"
  by (simp add: write_chunk_def flush_def processPending_buffer buffer_pushLines
        buffer_closeCode buffer_closeTable buffer_pushBuffer)

theorem buffer_has_no_newline_witness:
  "NL \<notin> set (buffer (fst (write_chunk createMarkdownRenderer (js ''ab'' @ [NL] @ js ''cd''))))
   \<and> NL \<notin> set (buffer (fst (flush (write_chunk createMarkdownRenderer
                                            (js ''ab'' @ [NL] @ js ''cd'')))))"
  using buffer_has_no_newline [of createMarkdownRenderer "js ''ab'' @ [NL] @ js ''cd''"]
    buffer_has_no_newline [of "write_chunk createMarkdownRenderer (js ''ab'' @ [NL] @ js ''cd'')"]
  by simp

subsection \<open>Reachable renderers\<close>

lemma reach_mutex:
  "reach r \<Longrightarrow> \<not> (inCodeBlock (fst r) \<and> tableState (fst r) \<noteq> None)"
proof (induction rule: reach.induct)
  case reach_init
  then show ?case by (simp add: createMarkdownRenderer_def createInitialState_def)
next
  case (reach_pushLines r chunk)
  then show ?case by (auto simp add: pushLines_def Let_def split: prod.splits)
next
  case (reach_drainStep r final r')
  then show ?case
    by (auto simp: drainStep_def split: prod.splits list.splits option.splits if_splits)
next
  case (reach_pushBuffer r)
  then show ?case by (auto simp add: pushBuffer_def split: prod.splits)
next
  case (reach_closeTable r)
  then show ?case by (auto simp add: closeTable_def split: prod.splits option.splits)
next
  case (reach_closeCode r)
  then show ?case by (auto simp add: closeCode_def split: prod.splits)
qed

lemma reach_drainPoints:
  "reach r \<Longrightarrow> p \<in> set (drainPoints final r) \<Longrightarrow> reach p"
proof (induction final r rule: drainPoints.induct)
  case (1 final r)
  show ?case
  proof (cases "drainStep final r")
    case None
    with "1.prems" show ?thesis by (simp add: drainPoints.simps [of final r])
  next
    case (Some r')
    have "reach r'" using "1.prems"(1) Some by (rule reach_drainStep)
    with 1 Some show ?thesis by (auto simp: drainPoints.simps [of final r])
  qed
qed

lemma reach_processPending:
  "reach r \<Longrightarrow> reach (processPending final r)"
proof (induction final r rule: processPending.induct)
  case (1 final r)
  show ?case
  proof (cases "drainStep final r")
    case None
    with "1.prems" show ?thesis by (simp add: processPending_None)
  next
    case (Some r')
    have "reach r'" using "1.prems" Some by (rule reach_drainStep)
    with 1 Some show ?thesis by (simp add: processPending_Some)
  qed
qed

lemma reach_write_chunk: "reach r \<Longrightarrow> reach (write_chunk r chunk)"
  by (simp add: write_chunk_def reach_processPending reach_pushLines)

lemma reach_flush: "reach r \<Longrightarrow> reach (flush r)"
  by (simp add: flush_def reach_processPending reach_pushBuffer reach_closeTable reach_closeCode)

lemma reach_flushPoints: "reach r \<Longrightarrow> p \<in> set (flushPoints r) \<Longrightarrow> reach p"
  by (auto simp: flushPoints_def Let_def reach_processPending reach_pushBuffer
        reach_closeTable reach_closeCode dest: reach_drainPoints [rotated])

lemma reach_runPoints: "reach r \<Longrightarrow> p \<in> set (runPoints r chunks) \<Longrightarrow> reach p"
proof (induction chunks arbitrary: r)
  case Nil
  then show ?case by (auto dest: reach_flushPoints)
next
  case (Cons chunk chunks)
  from Cons.prems(2) consider "p = r" | "p \<in> set (writePoints r chunk)"
    | "p \<in> set (runPoints (write_chunk r chunk) chunks)" by auto
  then show ?case
  proof cases
    case 1
    with Cons.prems show ?thesis by simp
  next
    case 2
    with Cons.prems(1) show ?thesis
      by (auto simp: writePoints_def dest: reach_drainPoints [rotated] intro: reach_pushLines)
  next
    case 3
    with Cons.IH [OF reach_write_chunk [OF Cons.prems(1)]] show ?thesis by simp
  qed
qed

lemma last_drainPoints: "last (drainPoints final r) = processPending final r"
proof (induction final r rule: drainPoints.induct)
  case (1 final r)
  show ?case
  proof (cases "drainStep final r")
    case None
    then show ?thesis by (simp add: drainPoints.simps [of final r] processPending_None)
  next
    case (Some r')
    have "drainPoints final r' \<noteq> []" by (simp add: drainPoints.simps [of final r'])
    with 1 Some show ?thesis
      by (simp add: drainPoints.simps [of final r] processPending_Some)
  qed
qed

text \<open>
  Claim C3.  At every point of every run (any chunks written one after the other, then
  \<open>flush\<close>, looked at before and after each iteration of the drain loop and each step of
  \<open>flush\<close>), and in every renderer that can come up at all, a code block and a table are
  never open together.  The last point of a run is the renderer that \<open>flush\<close> returns.
\<close>

theorem mutual_exclusion:
  "(\<forall>p \<in> set (runPoints createMarkdownRenderer chunks).
      \<not> (inCodeBlock (fst p) \<and> tableState (fst p) \<noteq> None))
   \<and> (reach r \<longrightarrow> \<not> (inCodeBlock (fst r) \<and> tableState (fst r) \<noteq> None))
   \<and> last (runPoints createMarkdownRenderer chunks)
       = flush (foldl write_chunk createMarkdownRenderer chunks)"
proof -
  have "last (runPoints r0 chunks) = flush (foldl write_chunk r0 chunks)" for r0
  proof (induction chunks arbitrary: r0)
    case Nil
    then show ?case by (simp add: flushPoints_def Let_def flush_def)
  next
    case (Cons chunk chunks)
    have "runPoints (write_chunk r0 chunk) chunks \<noteq> []" by (cases chunks) simp_all
    with Cons show ?case by simp
  qed
  then show ?thesis
    using reach_runPoints [OF reach_init] reach_mutex by blast
qed

theorem mutual_exclusion_witness:
  "write_chunk createMarkdownRenderer (js ''```'' @ [NL])
     \<in> set (runPoints createMarkdownRenderer [js ''```'' @ [NL]])
   \<and> inCodeBlock (fst (write_chunk createMarkdownRenderer (js ''```'' @ [NL])))
   \<and> tableState (fst (write_chunk createMarkdownRenderer (js ''```'' @ [NL]))) = None"
proof -
  have m: "write_chunk createMarkdownRenderer (js ''```'' @ [NL])
             \<in> set (runPoints createMarkdownRenderer [js ''```'' @ [NL]])"
    by simp
  have c: "inCodeBlock (fst (write_chunk createMarkdownRenderer (js ''```'' @ [NL])))"
    by code_simp
  from mutual_exclusion [of "[js ''```'' @ [NL]]"] m c show ?thesis by blast
qed

subsection \<open>Table candidates\<close>

text \<open>
  Claim C4.  In NORMAL mode (no table open, no code block open), when the head
  pending line is not a fence line and contains a pipe character: with no second pending
  line and not in final mode, the loop is left and nothing changes; otherwise, when there
  is a second pending line and it is a separator line, a table is begun with the parsed
  cells of the head line as header and no rows, and both lines are consumed; otherwise
  the head line alone is consumed and rendered as a generic line.
\<close>

theorem table_candidate_step:
  assumes "tableState state = None" and "\<not> inCodeBlock state"
    and "pendingLines state = line # rest"
    and "isTableRow line" and "\<not> isFence line"
  shows "drainStep final (state, out) =
           (if length (pendingLines state) < 2 \<and> \<not> final then None
            else if 2 \<le> length (pendingLines state) \<and> isTableSeparator (pendingLines state ! 1)
            then Some (state\<lparr>tableState := Some \<lparr>header = parseTableRow line, rows = []\<rparr>,
                             pendingLines := drop 2 (pendingLines state)\<rparr>, out)
            else Some (state\<lparr>pendingLines := rest\<rparr>, out @ [renderLine line @ [NL]]))
         \<and> (if length (pendingLines state) < 2 \<and> \<not> final
            then processPending final (state, out) = (state, out)
            else processPending final (state, out) \<noteq> (state, out))"
proof -
  have step: "drainStep final (state, out) =
           (if length (pendingLines state) < 2 \<and> \<not> final then None
            else if 2 \<le> length (pendingLines state) \<and> isTableSeparator (pendingLines state ! 1)
            then Some (state\<lparr>tableState := Some \<lparr>header = parseTableRow line, rows = []\<rparr>,
                             pendingLines := drop 2 (pendingLines state)\<rparr>, out)
            else Some (state\<lparr>pendingLines := rest\<rparr>, out @ [renderLine line @ [NL]]))"
    using assms by (cases rest) (simp_all add: drainStep_candidate)
  show ?thesis
  proof (cases "length (pendingLines state) < 2 \<and> \<not> final")
    case True
    with step show ?thesis by (simp add: processPending_None)
  next
    case False
    with step obtain r' where r': "drainStep final (state, out) = Some r'"
      by (simp split: if_splits)
    have "drainMeasure (processPending final r') \<le> drainMeasure r'" for r'
    proof (induction final r' rule: processPending.induct)
      case (1 final r)
      show ?case
      proof (cases "drainStep final r")
        case None
        then show ?thesis by (simp add: processPending_None)
      next
        case (Some r2)
        with 1 drainStep_decreases [OF Some] show ?thesis
          by (simp add: processPending_Some)
      qed
    qed
    from this [of r'] drainStep_decreases [OF r']
    have "drainMeasure (processPending final (state, out)) < drainMeasure (state, out)"
      by (simp add: processPending_Some [OF r'])
    then have "processPending final (state, out) \<noteq> (state, out)" by auto
    with step False show ?thesis by simp
  qed
qed

theorem table_candidate_step_witness:
  "drainStep False (\<lparr>buffer = [], pendingLines = [js ''a|b'', js ''-|-'', js ''1|2''],
                     inCodeBlock = False, tableState = None\<rparr>, [])
     = Some (\<lparr>buffer = [], pendingLines = [js ''1|2''], inCodeBlock = False,
              tableState = Some \<lparr>header = [js ''a'', js ''b''], rows = []\<rparr>\<rparr>, [])
   \<and> processPending False (\<lparr>buffer = [], pendingLines = [js ''a|b''],
                             inCodeBlock = False, tableState = None\<rparr>, [])
     = (\<lparr>buffer = [], pendingLines = [js ''a|b''], inCodeBlock = False, tableState = None\<rparr>, [])"
proof -
  have f: "isTableRow (js ''a|b'')" "\<not> isFence (js ''a|b'')"
    "isTableSeparator (js ''-|-'')" "parseTableRow (js ''a|b'') = [js ''a'', js ''b'']"
    by code_simp+
  from table_candidate_step [of "\<lparr>buffer = [], pendingLines = [js ''a|b'', js ''-|-'', js ''1|2''],
                     inCodeBlock = False, tableState = None\<rparr>" "js ''a|b''" "[js ''-|-'', js ''1|2'']" False "[]"]
    table_candidate_step [of "\<lparr>buffer = [], pendingLines = [js ''a|b''],
                     inCodeBlock = False, tableState = None\<rparr>" "js ''a|b''" "[]" False "[]"]
    f
  show ?thesis by simp
qed

theorem table_candidate_fence_counterexample:
  "isTableRow (js ''```|'')
   \<and> length (pendingLines \<lparr>buffer = [], pendingLines = [js ''```|''], inCodeBlock = False,
                           tableState = None\<rparr>) < 2
   \<and> processPending False (\<lparr>buffer = [], pendingLines = [js ''```|''], inCodeBlock = False,
                             tableState = None\<rparr>, [])
       = (\<lparr>buffer = [], pendingLines = [], inCodeBlock = True, tableState = None\<rparr>,
          [ansi_codeOn @ [NL]])"
  by code_simp

subsection \<open>Code blocks\<close>

lemma processPending_code_lines:
  "\<lbrakk>tableState state = None; inCodeBlock state; \<forall>l \<in> set (pendingLines state). \<not> isFence l\<rbrakk>
   \<Longrightarrow> processPending final (state, out) =
       (state\<lparr>pendingLines := []\<rparr>, out @ map (\<lambda>l. l @ [NL]) (pendingLines state))"
proof (induction "pendingLines state" arbitrary: state out)
  case Nil
  then have "drainStep final (state, out) = None" by (simp add: drainStep_None_iff)
  with Nil show ?case by (simp add: processPending_None)
next
  case (Cons line rest)
  from Cons.hyps(2) [symmetric] Cons.prems
  have step: "drainStep final (state, out) =
                Some (state\<lparr>pendingLines := rest\<rparr>, out @ [line @ [NL]])"
    by (simp add: drainStep_code)
  have "processPending final (state\<lparr>pendingLines := rest\<rparr>, out @ [line @ [NL]]) =
          (state\<lparr>pendingLines := rest\<rparr>\<lparr>pendingLines := []\<rparr>,
           (out @ [line @ [NL]]) @ map (\<lambda>l. l @ [NL]) (pendingLines (state\<lparr>pendingLines := rest\<rparr>)))"
    using Cons.prems Cons.hyps(2) [symmetric] by (intro Cons.hyps(1)) auto
  with step Cons.hyps(2) [symmetric] show ?case
    by (simp add: processPending_Some)
qed

text \<open>
  Claim C6.  In every renderer that can come up, while a code block is open an
  iteration of the drain loop consumes the head pending line: a fence line closes the
  block and emits the style reset; any other line is emitted as it is, followed by a
  newline, whatever Markdown it contains.  So pending lines none of which is a fence line
  are all emitted unchanged, one string each.
\<close>

theorem code_block_passthrough:
  assumes "reach (state, out)" and "inCodeBlock state"
  shows "(pendingLines state = line # rest \<longrightarrow>
            drainStep final (state, out) =
              Some (if isFence line
                    then (state\<lparr>pendingLines := rest, inCodeBlock := False\<rparr>,
                          out @ [ansi_codeOff @ [NL]])
                    else (state\<lparr>pendingLines := rest\<rparr>, out @ [line @ [NL]])))
         \<and> ((\<forall>l \<in> set (pendingLines state). \<not> isFence l) \<longrightarrow>
              processPending final (state, out) =
                (state\<lparr>pendingLines := []\<rparr>, out @ map (\<lambda>l. l @ [NL]) (pendingLines state)))"
proof -
  from reach_mutex [OF assms(1)] assms(2) have "tableState state = None" by simp
  with assms(2) show ?thesis
    by (simp add: drainStep_code processPending_code_lines)
qed

theorem code_block_passthrough_witness:
  "reach (\<lparr>buffer = [], pendingLines = [js ''**not bold**''], inCodeBlock = True,
           tableState = None\<rparr>, [ansi_codeOn @ [NL]])
   \<and> drainStep False (\<lparr>buffer = [], pendingLines = [js ''**not bold**''], inCodeBlock = True,
                       tableState = None\<rparr>, [ansi_codeOn @ [NL]])
       = Some (\<lparr>buffer = [], pendingLines = [], inCodeBlock = True, tableState = None\<rparr>,
               [ansi_codeOn @ [NL], js ''**not bold**'' @ [NL]])"
proof -
  have p: "pushLines createMarkdownRenderer (js ''```'' @ [NL] @ js ''**not bold**'' @ [NL])
             = (\<lparr>buffer = [], pendingLines = [js ''```'', js ''**not bold**''],
                 inCodeBlock = False, tableState = None\<rparr>, [])"
    by code_simp
  have s: "drainStep False (\<lparr>buffer = [], pendingLines = [js ''```'', js ''**not bold**''],
                 inCodeBlock = False, tableState = None\<rparr>, [])
             = Some (\<lparr>buffer = [], pendingLines = [js ''**not bold**''], inCodeBlock = True,
                      tableState = None\<rparr>, [ansi_codeOn @ [NL]])"
    by code_simp
  have r: "reach (\<lparr>buffer = [], pendingLines = [js ''**not bold**''], inCodeBlock = True,
           tableState = None\<rparr>, [ansi_codeOn @ [NL]])"
    using reach_drainStep [OF reach_pushLines [OF reach_init] s [unfolded p [symmetric]]] .
  have f: "\<not> isFence (js ''**not bold**'')" by code_simp
  from code_block_passthrough [OF r, of "js ''**not bold**''" "[]" False] f r
  show ?thesis by simp
qed

subsection \<open>Flush\<close>

lemma no_fence_in_reset: "96 \<notin> set (ansi_codeOff @ [NL])"
  by code_simp

subsection \<open>Chunk boundaries\<close>

lemma js_split_append:
  "js_split c (x @ y) = butlast (js_split c x) @ js_split c (last (js_split c x) @ y)"
proof (induction x)
  case Nil
  then show ?case by simp
next
  case (Cons a x)
  obtain p ps where ps: "js_split c x = p # ps"
    using js_split_not_Nil [of c x] by (cases "js_split c x") auto
  show ?case
  proof (cases "a = c")
    case True
    with Cons ps show ?thesis by simp
  next
    case False
    show ?thesis
    proof (cases ps)
      case Nil
      with Cons ps False show ?thesis by simp
    next
      case (Cons p' ps')
      with Cons.IH ps False show ?thesis by simp
    qed
  qed
qed

lemma pushLines_feed:
  "pushLines r chunk =
     feed (butlast (js_split NL (buffer (fst r) @ chunk)))
          (last (js_split NL (buffer (fst r) @ chunk))) r"
  by (cases r) (simp add: pushLines_def feed_def Let_def)

lemma feed_feed: "feed q2 b2 (feed q1 b1 r) = feed (q1 @ q2) b2 r"
  by (cases r) (simp add: feed_def)

lemma buffer_feed: "buffer (fst (feed q b r)) = b"
  by (cases r) (simp add: feed_def)

lemma drainStep_feed:
  "drainStep False r = Some r' \<Longrightarrow> drainStep final (feed q b r) = Some (feed q b r')"
  by (cases r; cases "pendingLines (fst r)"; cases "tl (pendingLines (fst r))")
     (auto simp: drainStep_def feed_def split: option.splits if_splits)

lemma processPending_feed:
  "processPending final (feed q b (processPending False r)) = processPending final (feed q b r)"
proof (induction "False" r rule: processPending.induct)
  case (1 r)
  show ?case
  proof (cases "drainStep False r")
    case None
    then show ?thesis by (simp add: processPending_None)
  next
    case (Some r')
    from drainStep_feed [OF Some]
    have "processPending final (feed q b r) = processPending final (feed q b r')"
      by (rule processPending_Some)
    with 1 Some show ?thesis by (simp add: processPending_Some)
  qed
qed

lemma write_chunk_append:
  "write_chunk (write_chunk r a) b = write_chunk r (a @ b)"
proof -
  let ?l1 = "js_split NL (buffer (fst r) @ a)"
  let ?l2 = "js_split NL (last ?l1 @ b)"
  have buf: "buffer (fst (write_chunk r a)) = last ?l1"
    by (simp add: write_chunk_def processPending_buffer pushLines_feed buffer_feed)
  have "write_chunk (write_chunk r a) b =
          processPending False (feed (butlast ?l2) (last ?l2)
            (processPending False (feed (butlast ?l1) (last ?l1) r)))"
    unfolding write_chunk_def [of "write_chunk r a"] pushLines_feed [of "write_chunk r a"] buf
    by (simp add: write_chunk_def pushLines_feed)
  also have "\<dots> = processPending False (feed (butlast ?l1 @ butlast ?l2) (last ?l2) r)"
    by (simp add: processPending_feed feed_feed)
  also have "\<dots> = write_chunk r (a @ b)"
  proof -
    have "js_split NL (buffer (fst r) @ a @ b) = butlast ?l1 @ ?l2"
      using js_split_append [of NL "buffer (fst r) @ a" b] by simp
    then show ?thesis
      by (simp add: write_chunk_def pushLines_feed butlast_append last_append js_split_not_Nil)
  qed
  finally show ?thesis .
qed

lemma foldl_write_chunk:
  "foldl write_chunk (write_chunk r a) bs = write_chunk r (a @ concat bs)"
proof (induction bs arbitrary: a)
  case Nil
  then show ?case by simp
next
  case (Cons b bs)
  then show ?case by (simp add: write_chunk_append)
qed

lemma write_chunk_initial_empty:
  "write_chunk createMarkdownRenderer [] = createMarkdownRenderer"
  by (simp add: write_chunk_def pushLines_def createMarkdownRenderer_def
        createInitialState_def processPending_None drainStep_None_iff)

lemma writes_as_one:
  "foldl write_chunk createMarkdownRenderer chunks
     = write_chunk createMarkdownRenderer (concat chunks)"
proof (cases chunks)
  case Nil
  then show ?thesis by (simp add: write_chunk_initial_empty)
next
  case (Cons a bs)
  then show ?thesis by (simp add: foldl_write_chunk)
qed

text \<open>
  Claim C1.  For every input and every way of cutting it into chunks, writing the chunks
  one after the other and then flushing calls the sink with the same strings, in the
  same order, as writing the whole input in one call and then flushing; so the
  concatenated output is the same.
\<close>

theorem chunk_boundaries_do_not_matter:
  "snd (flush (foldl write_chunk createMarkdownRenderer chunks))
     = snd (flush (write_chunk createMarkdownRenderer (concat chunks)))
   \<and> concat (snd (flush (foldl write_chunk createMarkdownRenderer chunks)))
     = concat (snd (flush (write_chunk createMarkdownRenderer (concat chunks))))"
  by (simp add: writes_as_one)

theorem chunk_boundaries_do_not_matter_witness:
  "snd (flush (foldl write_chunk createMarkdownRenderer [js ''a|'', js ''b'' @ [NL] @ js ''-'', js ''|-'']))
     = snd (flush (write_chunk createMarkdownRenderer (js ''a|b'' @ [NL] @ js ''-|-'')))"
  using chunk_boundaries_do_not_matter [of "[js ''a|'', js ''b'' @ [NL] @ js ''-'', js ''|-'']"]
  by (simp add: js_def)

subsection \<open>What was emitted before does not matter\<close>

lemma drainStep_out:
  "drainStep final (fst r, out @ snd r) =
     map_option (\<lambda>(s, ys). (s, out @ ys)) (drainStep final r)"
  by (cases r; cases "pendingLines (fst r)"; cases "tableState (fst r)")
     (auto simp: drainStep_def split: list.splits)

lemma processPending_out:
  "processPending final (fst r, out @ snd r) =
     (fst (processPending final r), out @ snd (processPending final r))"
proof (induction final r rule: processPending.induct)
  case (1 final r)
  show ?case
  proof (cases "drainStep final r")
    case None
    then have "drainStep final (fst r, out @ snd r) = None"
      using drainStep_out [of final r out] by simp
    with None show ?thesis by (simp add: processPending_None)
  next
    case (Some r')
    then have "drainStep final (fst r, out @ snd r) = Some (fst r', out @ snd r')"
      using drainStep_out [of final r out] by (simp add: case_prod_unfold)
    with 1 Some show ?thesis by (simp add: processPending_Some)
  qed
qed

lemma flush_out:
  "flush (state, out) = (fst (flush (state, [])), out @ snd (flush (state, [])))"
proof -
  have p: "pushBuffer (state, out) = (fst (pushBuffer (state, [])), out @ snd (pushBuffer (state, [])))"
    by (simp add: pushBuffer_def)
  have t: "closeTable (fst r, out @ snd r) = (fst (closeTable r), out @ snd (closeTable r))" for r
    by (cases r) (simp add: closeTable_def split: option.splits)
  have c: "closeCode (fst r, out @ snd r) = (fst (closeCode r), out @ snd (closeCode r))" for r
    by (cases r) (simp add: closeCode_def)
  show ?thesis
    unfolding flush_def p processPending_out t c ..
qed

subsection \<open>Flush finality\<close>

text \<open>
  Claim C5.  A line that is not a fence line and contains a pipe, alone in the queue in
  NORMAL mode, is what the drain defers: the non-final drain leaves the renderer as it
  is, the line still pending and nothing emitted.  When \<open>flush\<close> is then called and what
  is left in the buffer is not a separator line, \<open>flush\<close> emits the line as a generic
  rendered line and goes on as if the line had never been pending.
\<close>

theorem flush_resolves_deferred_line:
  assumes "tableState state = None" and "\<not> inCodeBlock state"
    and "pendingLines state = [line]" and "isTableRow line" and "\<not> isFence line"
  shows "processPending False (state, out) = (state, out)
         \<and> (\<not> isTableSeparator (buffer state) \<longrightarrow>
              flush (state, out) =
                (fst (flush (state\<lparr>pendingLines := []\<rparr>, [])),
                 out @ [renderLine line @ [NL]] @ snd (flush (state\<lparr>pendingLines := []\<rparr>, []))))"
proof -
  have "drainStep False (state, out) = None"
    using assms by (simp add: drainStep_candidate)
  then have deferred: "processPending False (state, out) = (state, out)"
    by (rule processPending_None)
  have resolved: "flush (state, out) =
                (fst (flush (state\<lparr>pendingLines := []\<rparr>, [])),
                 out @ [renderLine line @ [NL]] @ snd (flush (state\<lparr>pendingLines := []\<rparr>, [])))"
    if sep: "\<not> isTableSeparator (buffer state)"
  proof -
    obtain pushed where pushed: "pushBuffer (state\<lparr>pendingLines := []\<rparr>, []) = (pushed, [])"
      by (cases "buffer state = []") (simp_all add: pushBuffer_def)
    have p: "pushBuffer (state, out) = (pushed\<lparr>pendingLines := line # pendingLines pushed\<rparr>, out)"
      using pushed assms(3) by (auto simp: pushBuffer_def split: if_splits)
    have q: "pendingLines pushed = [] \<or> \<not> isTableSeparator (hd (pendingLines pushed))"
      using pushed sep by (auto simp: pushBuffer_def split: if_splits)
    have n: "tableState pushed = None" "\<not> inCodeBlock pushed"
      using pushed assms(1,2) by (auto simp: pushBuffer_def split: if_splits)
    have "drainStep True (pushed\<lparr>pendingLines := line # pendingLines pushed\<rparr>, out)
            = Some (pushed, out @ [renderLine line @ [NL]])"
      using q n assms(4,5)
      by (simp add: drainStep_candidate [where rest = "pendingLines pushed"])
    then have "processPending True (pushBuffer (state, out))
                 = processPending True (pushed, (out @ [renderLine line @ [NL]]) @ [])"
      by (simp add: p processPending_Some)
    also have "\<dots> = (fst (processPending True (pushed, [])),
                      (out @ [renderLine line @ [NL]]) @ snd (processPending True (pushed, [])))"
      using processPending_out [of True "(pushed, [])" "out @ [renderLine line @ [NL]]"]
      by simp
    finally have d: "processPending True (pushBuffer (state, out)) =
        (fst (processPending True (pushed, [])),
         (out @ [renderLine line @ [NL]]) @ snd (processPending True (pushed, [])))" .
    have t: "closeTable (fst r, ys @ snd r) = (fst (closeTable r), ys @ snd (closeTable r))"
      for r ys
      by (cases r) (simp add: closeTable_def split: option.splits)
    have c: "closeCode (fst r, ys @ snd r) = (fst (closeCode r), ys @ snd (closeCode r))"
      for r ys
      by (cases r) (simp add: closeCode_def)
    show ?thesis
      unfolding flush_def d pushed t c by simp
  qed
  from deferred resolved show ?thesis by blast
qed

theorem flush_resolves_deferred_line_witness:
  "write_chunk createMarkdownRenderer (js ''a|b'' @ [NL])
     = (\<lparr>buffer = [], pendingLines = [js ''a|b''], inCodeBlock = False, tableState = None\<rparr>, [])
   \<and> processPending False
        (\<lparr>buffer = [], pendingLines = [js ''a|b''], inCodeBlock = False, tableState = None\<rparr>, [])
     = (\<lparr>buffer = [], pendingLines = [js ''a|b''], inCodeBlock = False, tableState = None\<rparr>, [])
   \<and> flush (\<lparr>buffer = [], pendingLines = [js ''a|b''], inCodeBlock = False,
              tableState = None\<rparr>, [])
     = (\<lparr>buffer = [], pendingLines = [], inCodeBlock = False, tableState = None\<rparr>,
        [js ''a|b'' @ [NL]])"
proof -
  have w: "write_chunk createMarkdownRenderer (js ''a|b'' @ [NL])
     = (\<lparr>buffer = [], pendingLines = [js ''a|b''], inCodeBlock = False, tableState = None\<rparr>, [])"
    by code_simp
  have f: "isTableRow (js ''a|b'')" "\<not> isFence (js ''a|b'')" "\<not> isTableSeparator []"
    "renderLine (js ''a|b'') = js ''a|b''"
    by code_simp+
  have e: "flush (\<lparr>buffer = [], pendingLines = [], inCodeBlock = False, tableState = None\<rparr>, [])
             = (\<lparr>buffer = [], pendingLines = [], inCodeBlock = False, tableState = None\<rparr>, [])"
    by code_simp
  from flush_resolves_deferred_line [of "\<lparr>buffer = [], pendingLines = [js ''a|b''],
      inCodeBlock = False, tableState = None\<rparr>" "js ''a|b''" "[]"] f e w
  show ?thesis by simp
qed

section \<open>What the patterns match\<close>

lemma can_Eps: "can Eps []"
  by (simp add: can_def rmatch.simps)

lemma can_Cls: "P a \<Longrightarrow> can (Cls P) [a]"
  by (simp add: can_def rmatch.simps)

lemma can_Seq:
  assumes "can a x" and "can b y"
  shows "can (Seq a b) (x @ y)"
  unfolding can_def
proof (intro allI)
  fix i s c
  from assms(1) obtain c1 where 1: "(i + length x, y @ s, c1) \<in> set (rmatch a (i, x @ y @ s, c))"
    unfolding can_def by blast
  from assms(2) obtain c2
    where 2: "(i + length x + length y, s, c2) \<in> set (rmatch b (i + length x, y @ s, c1))"
    unfolding can_def by blast
  from 1 2 have "(i + length (x @ y), s, c2) \<in> set (rmatch (Seq a b) (i, (x @ y) @ s, c))"
    by (auto simp: rmatch.simps add.assoc)
  then show "\<exists>c'. (i + length (x @ y), s, c') \<in> set (rmatch (Seq a b) (i, (x @ y) @ s, c))" ..
qed

lemma can_Alt1: "can a x \<Longrightarrow> can (Alt a b) x"
  unfolding can_def by (auto simp: rmatch.simps) blast

lemma can_Alt2: "can b x \<Longrightarrow> can (Alt a b) x"
  unfolding can_def by (auto simp: rmatch.simps) blast

lemma can_Grp: "can a x \<Longrightarrow> can (Grp n a) x"
  unfolding can_def
proof (intro allI)
  fix i s c
  assume "\<forall>i s c. \<exists>c'. (i + length x, s, c') \<in> set (rmatch a (i, x @ s, c))"
  then obtain c1 where "(i + length x, s, c1) \<in> set (rmatch a (i, x @ s, c))" by blast
  then have "(i + length x, s, (n, take (i + length x - i) (x @ s)) # c1)
               \<in> set (rmatch (Grp n a) (i, x @ s, c))"
    by (force simp: rmatch.simps)
  then show "\<exists>c'. (i + length x, s, c') \<in> set (rmatch (Grp n a) (i, x @ s, c))" ..
qed

lemma can_Star_Nil: "can (Star g a) []"
  unfolding can_def by (subst rmatch.simps) (auto simp: Let_def)

lemma can_Star_step:
  assumes "can a x" and "x \<noteq> []" and "can (Star g a) y"
  shows "can (Star g a) (x @ y)"
  unfolding can_def
proof (intro allI)
  fix i s c
  from assms(1) obtain c1 where 1: "(i + length x, y @ s, c1) \<in> set (rmatch a (i, x @ y @ s, c))"
    unfolding can_def by blast
  from assms(3) obtain c2
    where 2: "(i + length x + length y, s, c2)
                \<in> set (rmatch (Star g a) (i + length x, y @ s, c1))"
    unfolding can_def by blast
  from assms(2) have 3: "length (y @ s) < length (x @ y @ s)" by (cases x) auto
  from 1 2 3 have "(i + length (x @ y), s, c2) \<in> set (rmatch (Star g a) (i, (x @ y) @ s, c))"
    by (subst rmatch.simps) (force simp: Let_def add.assoc)
  then show "\<exists>c'. (i + length (x @ y), s, c') \<in> set (rmatch (Star g a) (i, (x @ y) @ s, c))" ..
qed

lemma can_Star_Cls: "list_all P x \<Longrightarrow> can (Star g (Cls P)) x"
proof (induction x)
  case Nil
  show ?case by (rule can_Star_Nil)
next
  case (Cons a x)
  then have "can (Cls P) [a]" and "can (Star g (Cls P)) x"
    by (simp_all add: can_Cls)
  then have "can (Star g (Cls P)) ([a] @ x)"
    by (intro can_Star_step [of "Cls P" "[a]" g x]) simp_all
  then show ?case by simp
qed

lemma can_Star_concat:
  "\<forall>x \<in> set xs. can a x \<and> x \<noteq> [] \<Longrightarrow> can (Star g a) (concat xs)"
proof (induction xs)
  case Nil
  then show ?case by (simp add: can_Star_Nil)
next
  case (Cons x xs)
  then show ?case by (simp add: can_Star_step)
qed

lemma can_Plus_concat:
  assumes "can a x" and "\<forall>y \<in> set xs. can a y \<and> y \<noteq> []"
  shows "can (Plus g a) (x @ concat xs)"
  unfolding Plus_def using assms by (intro can_Seq [of a x] can_Star_concat [of xs a])

lemma can_Opt_Nil: "can (Opt a) []"
  unfolding Opt_def by (intro can_Alt2 can_Eps)

lemma can_Opt: "can a x \<Longrightarrow> can (Opt a) x"
  unfolding Opt_def by (rule can_Alt1)

lemma can_Opt_Chr: "can (Opt (Chr k)) (if b then [k] else [])"
  by (simp add: can_Opt_Nil can_Opt can_Cls Chr_def)

lemma fin_Eol: "fin Eol []"
  by (simp add: fin_def rmatch.simps)

lemma fin_Seq:
  assumes "can a x" and "fin b y"
  shows "fin (Seq a b) (x @ y)"
  unfolding fin_def
proof (intro allI)
  fix i c
  from assms(1) obtain c1 where 1: "(i + length x, y, c1) \<in> set (rmatch a (i, x @ y, c))"
    unfolding can_def by blast
  from assms(2) obtain c2
    where 2: "(i + length x + length y, [], c2) \<in> set (rmatch b (i + length x, y, c1))"
    unfolding fin_def by blast
  from 1 2 have "(i + length (x @ y), [], c2) \<in> set (rmatch (Seq a b) (i, x @ y, c))"
    by (auto simp: rmatch.simps add.assoc)
  then show "\<exists>c'. (i + length (x @ y), [], c') \<in> set (rmatch (Seq a b) (i, x @ y, c))" ..
qed

lemma rx_test_Bol:
  assumes "fin r x"
  shows "rx_test (Seq Bol r) x"
proof -
  from assms obtain c' where "(0 + length x, [], c') \<in> set (rmatch r (0, x, []))"
    unfolding fin_def by blast
  then have "rmatch (Seq Bol r) (0, x, []) \<noteq> []"
    by (auto simp: rmatch.simps)
  then show ?thesis
    by (cases x; cases "rmatch (Seq Bol r) (0, x, [])") (auto simp: rx_test_def)
qed

subsection \<open>Separator lines\<close>

lemma can_rx_ws: "list_all isSpace w \<Longrightarrow> can rx_ws w"
  unfolding rx_ws_def by (rule can_Star_Cls)

lemma can_dashes: "can (Plus True (Chr 45)) (replicate (Suc n) 45)"
proof -
  have "can (Plus True (Chr 45)) ([45] @ concat (replicate n [45]))"
    by (intro can_Plus_concat) (auto simp: Chr_def can_Cls)
  moreover have "concat (replicate n [45 :: jchar]) = replicate n 45"
    by (induction n) simp_all
  ultimately show ?thesis by simp
qed

lemma can_rx_dashes:
  assumes "cellShapeOk sh"
  shows "can rx_dashes (cellOf sh)"
proof -
  obtain l c1 n c2 t where sh: "sh = (l, c1, n, c2, t)" by (cases sh)
  with assms have ws: "list_all isSpace l" "list_all isSpace t"
    by (simp_all add: cellShapeOk_def)
  have "can (Seq rx_ws (Seq (Opt (Chr 58)) (Seq (Plus True (Chr 45)) (Seq (Opt (Chr 58)) rx_ws))))
          (l @ (if c1 then [58] else []) @ replicate (Suc n) 45 @ (if c2 then [58] else []) @ t)"
    by (intro can_Seq can_rx_ws ws can_Opt_Chr can_dashes)
  then show ?thesis by (simp add: rx_dashes_def sh cellOf_def dashCell_def)
qed

lemma cellOf_not_Nil: "cellOf sh \<noteq> []"
  by (cases sh) (simp add: cellOf_def dashCell_def)

lemma join_pipe:
  "cells \<noteq> [] \<Longrightarrow>
     join [PIPE] cells = concat (map (\<lambda>cell. cell @ [PIPE]) (butlast cells)) @ last cells"
  by (induction "[PIPE]" cells rule: join.induct) simp_all

lemma isTableSeparator_separatorLine:
  assumes ws: "list_all isSpace ws1" "list_all isSpace ws2"
    and shapes: "list_all cellShapeOk shapes" and two: "2 \<le> length shapes"
  shows "isTableSeparator (separatorLine ws1 lead shapes trail ws2)"
proof -
  from two obtain sh shs where shs: "butlast shapes = sh # shs"
    by (cases shapes; cases "tl shapes") auto
  from two have ne: "shapes \<noteq> []" by auto
  let ?piece = "\<lambda>cell. cell @ [PIPE]"
  let ?g = "Grp 1 (Seq rx_dashes (Chr PIPE))"
  have ok: "cellShapeOk s" if "s \<in> set shapes" for s
    using shapes that by (simp add: list_all_iff)
  have piece: "can ?g (?piece (cellOf s))" if "s \<in> set shapes" for s
    by (intro can_Grp can_Seq can_rx_dashes ok that) (simp add: Chr_def can_Cls)
  have inbl: "s \<in> set shapes" if "s \<in> set (butlast shapes)" for s
    using that by (rule in_set_butlastD)
  have first: "can ?g (?piece (cellOf sh))"
    using shs by (intro piece inbl) simp
  have rest: "\<forall>y \<in> set (map (\<lambda>s. ?piece (cellOf s)) shs). can ?g y \<and> y \<noteq> []"
  proof
    fix y
    assume "y \<in> set (map (\<lambda>s. ?piece (cellOf s)) shs)"
    then obtain s where s: "s \<in> set shs" "y = ?piece (cellOf s)" by auto
    from s(1) shs have "s \<in> set shapes" by (intro inbl) simp
    from piece [OF this] s(2) show "can ?g y \<and> y \<noteq> []" by simp
  qed
  have "can (Plus True ?g) (?piece (cellOf sh) @ concat (map (\<lambda>s. ?piece (cellOf s)) shs))"
    using first rest by (rule can_Plus_concat)
  then have many: "can (Plus True ?g) (concat (map ?piece (butlast (map cellOf shapes))))"
    by (simp add: map_butlast [symmetric] shs comp_def)
  have lastc: "can rx_dashes (last (map cellOf shapes))"
    using ne by (simp add: last_map can_rx_dashes ok)
  have f: "fin (Seq rx_ws (Seq (Opt (Chr PIPE)) (Seq (Plus True ?g)
              (Seq rx_dashes (Seq (Opt (Chr PIPE)) (Seq rx_ws Eol))))))
          (ws1 @ (if lead then [PIPE] else [])
             @ concat (map ?piece (butlast (map cellOf shapes)))
             @ last (map cellOf shapes) @ (if trail then [PIPE] else []) @ ws2 @ [])"
    by (intro fin_Seq can_rx_ws ws can_Opt_Chr many lastc fin_Eol)
  have line: "separatorLine ws1 lead shapes trail ws2 =
          ws1 @ (if lead then [PIPE] else [])
             @ concat (map ?piece (butlast (map cellOf shapes)))
             @ last (map cellOf shapes) @ (if trail then [PIPE] else []) @ ws2 @ []"
    using ne by (simp add: separatorLine_def join_pipe)
  have rx: "rx_separator = Seq Bol (Seq rx_ws (Seq (Opt (Chr PIPE)) (Seq (Plus True ?g)
              (Seq rx_dashes (Seq (Opt (Chr PIPE)) (Seq rx_ws Eol))))))"
    by (simp add: rx_separator_def)
  show ?thesis
    unfolding isTableSeparator_def line rx using f by (rule rx_test_Bol)
qed

text \<open>
  Claim C8.  Every line made of two or more dash cells (one or more dashes, with
  an optional colon before and after them and optional white space around) with one
  pipe between neighbouring cells, an optional pipe before the first cell and after the
  last, and optional white space around the whole, is classified as a separator line.
  So, in NORMAL mode after a head line that is not a fence line and contains a pipe, it
  makes that line the header of a new table and both lines are consumed; and at the head
  of the queue in TABLE mode it ends the table, which is rendered, instead of becoming a
  data row.
\<close>

theorem separator_lines_recognised:
  assumes "list_all isSpace ws1" and "list_all isSpace ws2"
    and "list_all cellShapeOk shapes" and "2 \<le> length shapes"
  shows "isTableSeparator (separatorLine ws1 lead shapes trail ws2)
         \<and> (tableState state = None \<and> \<not> inCodeBlock state \<and> isTableRow line \<and> \<not> isFence line
              \<and> pendingLines state = line # separatorLine ws1 lead shapes trail ws2 # rest
            \<longrightarrow> drainStep final (state, out) =
                  Some (state\<lparr>tableState := Some \<lparr>header = parseTableRow line, rows = []\<rparr>,
                              pendingLines := rest\<rparr>, out))
         \<and> (tableState state' = Some table
              \<and> pendingLines state' = separatorLine ws1 lead shapes trail ws2 # rest
            \<longrightarrow> drainStep final (state', out) =
                  Some (state'\<lparr>tableState := None\<rparr>, out @ [renderTable table @ [NL]]))"
proof -
  have sep: "isTableSeparator (separatorLine ws1 lead shapes trail ws2)"
    using assms by (rule isTableSeparator_separatorLine)
  then show ?thesis
    by (auto simp: drainStep_candidate drainStep_table_end)
qed

theorem separator_lines_recognised_witness:
  "isTableSeparator (js ''| --- | :-: |'')
   \<and> drainStep False (\<lparr>buffer = [], pendingLines = [js ''a|b'', js ''| --- | :-: |''],
                       inCodeBlock = False, tableState = None\<rparr>, [])
       = Some (\<lparr>buffer = [], pendingLines = [], inCodeBlock = False,
                tableState = Some \<lparr>header = [js ''a'', js ''b''], rows = []\<rparr>\<rparr>, [])"
proof -
  have l: "separatorLine [] True [(js '' '', False, 2, False, js '' ''),
                                  (js '' '', True, 0, True, js '' '')] True []
             = js ''| --- | :-: |''"
    by code_simp
  have h: "list_all isSpace []"
    "list_all cellShapeOk [(js '' '', False, 2, False, js '' ''),
                           (js '' '', True, 0, True, js '' '')]"
    "2 \<le> length [(js '' '', False, 2 :: nat, False, js '' ''),
                   (js '' '', True, 0, True, js '' '')]"
    "isTableRow (js ''a|b'')" "\<not> isFence (js ''a|b'')"
    "parseTableRow (js ''a|b'') = [js ''a'', js ''b'']"
    by code_simp+
  from separator_lines_recognised [OF h(1) h(1) h(2) h(3), of True True
      "\<lparr>buffer = [], pendingLines = [js ''a|b'', js ''| --- | :-: |''],
        inCodeBlock = False, tableState = None\<rparr>" "js ''a|b''" "[]" False "[]",
      unfolded l] h(4,5,6)
  show ?thesis by simp
qed

theorem separator_single_column_counterexample:
  "list_all (\<lambda>c. c = 45 \<or> c = 58 \<or> c = PIPE \<or> isSpace c) (js ''---'')
   \<and> \<not> isTableSeparator (js ''---'')
   \<and> drainStep True (\<lparr>buffer = [], pendingLines = [js ''a|b'', js ''---''],
                      inCodeBlock = False, tableState = None\<rparr>, [])
       = Some (\<lparr>buffer = [], pendingLines = [js ''---''], inCodeBlock = False,
                tableState = None\<rparr>, [js ''a|b'' @ [NL]])
   \<and> list_all (\<lambda>c. c = 45 \<or> c = 58 \<or> c = PIPE \<or> isSpace c) (js ''|---|'')
   \<and> \<not> isTableSeparator (js ''|---|'')
   \<and> drainStep False (\<lparr>buffer = [], pendingLines = [js ''|---|''], inCodeBlock = False,
                       tableState = Some \<lparr>header = [js ''a'', js ''b''], rows = []\<rparr>\<rparr>, [])
       = Some (\<lparr>buffer = [], pendingLines = [], inCodeBlock = False,
                tableState = Some \<lparr>header = [js ''a'', js ''b''], rows = [[js ''---'']]\<rparr>\<rparr>, [])"
  by code_simp

section \<open>Tables\<close>

lemma length_setWidth:
  "index \<le> length widths \<Longrightarrow> length (setWidth widths index len) = max (length widths) (Suc index)"
  by (auto simp: setWidth_def Let_def)

lemma nth_setWidth:
  "index \<le> length widths \<Longrightarrow> i < max (length widths) (Suc index) \<Longrightarrow>
     setWidth widths index len ! i =
       (if i = index then max (if index < length widths then widths ! index else 0) (max len 3)
        else widths ! i)"
  by (auto simp: setWidth_def Let_def nth_append)

lemma widthsRow_length:
  "index \<le> length widths \<Longrightarrow>
     length (widthsRow widths index cells) = max (length widths) (index + length cells)"
proof (induction cells arbitrary: widths index)
  case Nil
  then show ?case by simp
next
  case (Cons cell cells)
  then show ?case by (simp add: length_setWidth) 
qed

lemma widthsRow_nth:
  "index \<le> length widths \<Longrightarrow> i < max (length widths) (index + length cells) \<Longrightarrow>
     widthsRow widths index cells ! i =
       (if index \<le> i \<and> i < index + length cells
        then max (if i < length widths then widths ! i else 0)
                 (max (visibleLength (cells ! (i - index))) 3)
        else widths ! i)"
proof (induction cells arbitrary: widths index)
  case Nil
  then show ?case by simp
next
  case (Cons cell cells)
  let ?w = "setWidth widths index (visibleLength cell)"
  have len: "length ?w = max (length widths) (Suc index)"
    using Cons.prems(1) by (rule length_setWidth)
  have a: "Suc index \<le> length ?w" using len by simp
  have b: "i < max (length ?w) (Suc index + length cells)"
    using Cons.prems(2) len by auto
  have i: "i < max (length widths) (Suc index) \<Longrightarrow> ?w ! i =
       (if i = index then max (if index < length widths then widths ! index else 0)
                              (max (visibleLength cell) 3)
        else widths ! i)"
    using Cons.prems(1) by (rule nth_setWidth)
  show ?case
  proof (cases "i = index")
    case True
    with Cons.IH [OF a b] i len Cons.prems show ?thesis by auto
  next
    case False
    show ?thesis
    proof (cases "i < index")
      case True
      with Cons.IH [OF a b] i len Cons.prems show ?thesis by auto
    next
      case False
      with \<open>i \<noteq> index\<close> have gt: "Suc index \<le> i" by simp
      then have "(cell # cells) ! (i - index) = cells ! (i - Suc index)"
        by (simp add: nth_Cons' Suc_diff_le)
      moreover have "i < length ?w \<longleftrightarrow> i < length widths"
        using gt len by auto
      moreover have "i < length widths \<Longrightarrow> ?w ! i = widths ! i"
        using i gt by auto
      ultimately show ?thesis
        using Cons.IH [OF a b] gt Cons.prems(2) by (auto simp: nth_Cons' Suc_diff_le)
    qed
  qed
qed


lemma Max_insert_max:
  "finite A \<Longrightarrow> Max (insert (max a b) A) = Max (insert (a :: nat) (insert b A))"
  by (cases "A = {}") (simp_all add: max.assoc)

lemma fold_widths_length:
  "length (fold (\<lambda>row widths. widthsRow widths 0 row) rs widths)
     = Max (insert (length widths) (length ` set rs))"
proof (induction rs arbitrary: widths)
  case Nil
  then show ?case by simp
next
  case (Cons row rs)
  have "Max (insert (max (length widths) (length row)) (length ` set rs))
          = Max (insert (length widths) (insert (length row) (length ` set rs)))"
    by (rule Max_insert_max) simp
  with Cons show ?case by (simp add: widthsRow_length)
qed

lemma fold_widths_nth:
  "i < length (fold (\<lambda>row widths. widthsRow widths 0 row) rs widths) \<Longrightarrow>
     fold (\<lambda>row widths. widthsRow widths 0 row) rs widths ! i
     = Max ((if i < length widths then {widths ! i} else {})
            \<union> (\<lambda>row. max (visibleLength (row ! i)) 3) ` {row \<in> set rs. i < length row})"
proof (induction rs arbitrary: widths)
  case Nil
  then show ?case by simp
next
  case (Cons row rs)
  let ?w = "widthsRow widths 0 row"
  let ?f = "\<lambda>row. max (visibleLength (row ! i)) 3"
  let ?S = "?f ` {row \<in> set rs. i < length row}"
  have fin: "finite ?S" by simp
  have len: "length ?w = max (length widths) (length row)"
    by (simp add: widthsRow_length)
  have IH: "fold (\<lambda>row widths. widthsRow widths 0 row) rs ?w ! i
              = Max ((if i < length ?w then {?w ! i} else {}) \<union> ?S)"
    using Cons.prems by (intro Cons.IH) simp
  show ?case
  proof (cases "i < length row")
    case True
    have S': "?f ` {r \<in> set (row # rs). i < length r} = insert (?f row) ?S"
      using True by auto
    have ilen: "i < length ?w" using True len by simp
    have w: "?w ! i = max (if i < length widths then widths ! i else 0) (?f row)"
      using True by (simp add: widthsRow_nth)
    have l: "fold (\<lambda>row widths. widthsRow widths 0 row) (row # rs) widths ! i
               = Max (insert (?w ! i) ?S)"
      using IH ilen by (simp del: Max_insert)
    show ?thesis
    proof (cases "i < length widths")
      case True
      with w have "?w ! i = max (widths ! i) (?f row)" by simp
      with l have "fold (\<lambda>row widths. widthsRow widths 0 row) (row # rs) widths ! i
               = Max (insert (max (widths ! i) (?f row)) ?S)"
        by (simp only:)
      also have "\<dots> = Max (insert (widths ! i) (insert (?f row) ?S))"
        using fin by (rule Max_insert_max)
      also have "\<dots> = Max ((if i < length widths then {widths ! i} else {})
                            \<union> ?f ` {r \<in> set (row # rs). i < length r})"
        unfolding S' using True by (simp only: if_True insert_is_Un [symmetric] Un_empty_left)
      finally show ?thesis .
    next
      case False
      with w have "?w ! i = ?f row" by simp
      with l have "fold (\<lambda>row widths. widthsRow widths 0 row) (row # rs) widths ! i
               = Max (insert (?f row) ?S)"
        by (simp only:)
      also have "\<dots> = Max ((if i < length widths then {widths ! i} else {})
                            \<union> ?f ` {r \<in> set (row # rs). i < length r})"
        unfolding S' using False by (simp only: if_False Un_empty_left)
      finally show ?thesis .
    qed
  next
    case False
    have S': "?f ` {r \<in> set (row # rs). i < length r} = ?S"
      using False by auto
    have w: "i < length widths \<Longrightarrow> ?w ! i = widths ! i"
      using False by (simp add: widthsRow_nth)
    have "i < length ?w \<longleftrightarrow> i < length widths"
      using False len by auto
    with IH w have "fold (\<lambda>row widths. widthsRow widths 0 row) (row # rs) widths ! i
               = Max ((if i < length widths then {widths ! i} else {}) \<union> ?S)"
      by (simp del: Max_insert)
    then show ?thesis unfolding S' .
  qed
qed

lemma Max_floor:
  "finite A \<Longrightarrow> A \<noteq> {} \<Longrightarrow>
     Max ((\<lambda>r. max (f r) 3) ` A) = Max (insert (3 :: nat) (f ` A))"
proof (induction A rule: finite_ne_induct)
  case (singleton x)
  then show ?case by (simp add: max.commute)
next
  case (insert x F)
  then show ?case by (simp add: max.assoc max.left_commute max.commute)
qed

lemma tableWidths_length:
  "length (tableWidths table) = Max (length ` set (allRows table))"
proof -
  have "Max (insert 0 (length ` set (allRows table))) = Max (length ` set (allRows table))"
    by (simp add: allRows_def)
  then show ?thesis by (simp add: tableWidths_def fold_widths_length)
qed

lemma column_has_cell:
  assumes "i < length (tableWidths table)"
  shows "{row \<in> set (allRows table). i < length row} \<noteq> {}"
proof -
  have "Max (length ` set (allRows table)) \<in> length ` set (allRows table)"
    by (intro Max_in) (simp_all add: allRows_def)
  then obtain row where "row \<in> set (allRows table)"
    and "length row = Max (length ` set (allRows table))" by auto
  with assms show ?thesis by (auto simp: tableWidths_length)
qed

lemma tableWidths_nth:
  assumes "i < length (tableWidths table)"
  shows "tableWidths table ! i
           = Max (insert 3 ((\<lambda>row. visibleLength (row ! i))
                              ` {row \<in> set (allRows table). i < length row}))"
proof -
  from assms have "tableWidths table ! i
      = Max ((\<lambda>row. max (visibleLength (row ! i)) 3) ` {row \<in> set (allRows table). i < length row})"
    unfolding tableWidths_def by (simp add: fold_widths_nth)
  also have "\<dots> = Max (insert 3 ((\<lambda>row. visibleLength (row ! i))
                              ` {row \<in> set (allRows table). i < length row}))"
    by (intro Max_floor column_has_cell assms) simp
  finally show ?thesis .
qed

lemma visibleLength_empty: "visibleLength [] = 0"
  by code_simp

lemma cell_fits:
  assumes "row \<in> set (allRows table)" and "i < length (tableWidths table)"
  shows "visibleLength (cellAt row i) \<le> tableWidths table ! i"
proof (cases "i < length row")
  case True
  with assms(1) have "visibleLength (row ! i)
      \<in> insert 3 ((\<lambda>row. visibleLength (row ! i)) ` {row \<in> set (allRows table). i < length row})"
    by auto
  then have "visibleLength (row ! i) \<le> tableWidths table ! i"
    unfolding tableWidths_nth [OF assms(2)] by (intro Max_ge) simp_all
  with True show ?thesis by (simp add: cellAt_def)
next
  case False
  then show ?thesis by (simp add: cellAt_def visibleLength_empty)
qed

lemma renderCells_length: "length (renderCells widths row isHeader) = length widths"
  by (simp add: renderCells_def)

lemma renderCells_nth:
  assumes "i < length widths"
  shows "renderCells widths row isHeader ! i =
       (if isHeader then ansi_boldOn @ ansi_cyanOn else [])
       @ renderInline (cellAt row i)
       @ replicate (widths ! i - visibleLength (cellAt row i)) SPACE
       @ (if isHeader then ansi_boldOff @ ansi_cyanOff else [])"
proof -
  have "nat (max 0 (int w - int v)) = w - v" for w v :: nat
    by simp
  with assms show ?thesis
    by (simp add: renderCells_def renderCell_def Let_def visibleLength_def)
qed

subsection \<open>Escape sequences\<close>

lemma rmatch_Chr_then:
  "rmatch (Seq (Chr k) r) (i, s, c) =
     (case s of [] \<Rightarrow> [] | x # xs \<Rightarrow> if x = k then rmatch r (Suc i, xs, c) else [])"
  by (cases s) (simp_all add: rmatch.simps(2,3) Chr_def)

lemma rmatch_Chr:
  "rmatch (Chr k) (i, s, c) =
     (case s of [] \<Rightarrow> [] | x # xs \<Rightarrow> if x = k then [(Suc i, xs, c)] else [])"
  by (simp add: rmatch.simps(2) Chr_def)

lemma rmatch_class_then_char:
  "\<not> P m \<Longrightarrow>
     rmatch (Seq (Star True (Cls P)) (Chr m)) (i, s, c) =
       (case dropWhile P s of
          [] \<Rightarrow> []
        | x # u \<Rightarrow> if x = m then [(i + length (takeWhile P s) + 1, u, c)] else [])"
proof (induction s arbitrary: i)
  case Nil
  have "rmatch (Star True (Cls P)) (i, [], c) = [(i, [], c)]"
    by (subst rmatch.simps) (simp add: rmatch.simps(2) Let_def)
  then show ?case
    by (simp add: rmatch.simps(3) rmatch_Chr)
next
  case (Cons x xs)
  show ?case
  proof (cases "P x")
    case True
    with Cons.prems have ne: "x \<noteq> m" by auto
    have star: "rmatch (Star True (Cls P)) (i, x # xs, c)
                  = rmatch (Star True (Cls P)) (Suc i, xs, c) @ [(i, x # xs, c)]"
      using True by (subst rmatch.simps) (simp add: rmatch.simps(2) Let_def)
    have "rmatch (Seq (Star True (Cls P)) (Chr m)) (i, x # xs, c)
            = rmatch (Seq (Star True (Cls P)) (Chr m)) (Suc i, xs, c)"
      using ne by (simp add: rmatch.simps(3) star rmatch_Chr)
    moreover have "(case dropWhile P (x # xs) of [] \<Rightarrow> []
         | y # u \<Rightarrow> if y = m then [(i + length (takeWhile P (x # xs)) + 1, u, c)] else [])
       = (case dropWhile P xs of [] \<Rightarrow> []
         | y # u \<Rightarrow> if y = m then [(Suc i + length (takeWhile P xs) + 1, u, c)] else [])"
      using True by (cases "dropWhile P xs") (simp_all del: dropWhile_eq_Nil_conv)
    ultimately show ?thesis
      using Cons.IH [OF Cons.prems, of "Suc i"] by (simp only:)
  next
    case False
    have star: "rmatch (Star True (Cls P)) (i, x # xs, c) = [(i, x # xs, c)]"
      using False by (subst rmatch.simps) (simp add: rmatch.simps(2) Let_def)
    show ?thesis
      using False Cons.prems by (auto simp add: rmatch.simps(3) star rmatch_Chr)
  qed
qed

lemma rmatch_rx_ansi:
  "rmatch rx_ansi (i, s, c) =
     (case ansiRest s of None \<Rightarrow> [] | Some u \<Rightarrow> [(i + (length s - length u), u, c)])"
proof -
  let ?P = "\<lambda>c. isDigit c \<or> c = 59"
  have notm: "\<not> ?P 109" by (simp add: isDigit_def)
  have tail: "rmatch (Seq (Star True (Cls ?P)) (Chr 109)) (j, t, c) =
       (case dropWhile ?P t of
          [] \<Rightarrow> []
        | x # u \<Rightarrow> if x = 109 then [(j + length (takeWhile ?P t) + 1, u, c)] else [])" for j t
    using notm by (rule rmatch_class_then_char)
  have len: "length t = length (takeWhile ?P t) + Suc (length u)"
    if "dropWhile ?P t = x # u" for t x u
    using arg_cong [OF takeWhile_dropWhile_id [of ?P t], of length] that by simp
  have rx: "rx_ansi = Seq (Chr ESC) (Seq (Chr 91) (Seq (Star True (Cls ?P)) (Chr 109)))"
    by (simp add: rx_ansi_def)
  show ?thesis
  proof (cases s)
    case Nil
    then show ?thesis by (simp add: rx rmatch_Chr_then ansiRest_def)
  next
    case (Cons e s1)
    show ?thesis
    proof (cases s1)
      case Nil
      with Cons show ?thesis by (simp add: rx rmatch_Chr_then ansiRest_def)
    next
      case (Cons b t)
      show ?thesis
      proof (cases "e = ESC \<and> b = 91")
        case False
        with Cons \<open>s = e # s1\<close> show ?thesis
          by (auto simp: rx rmatch_Chr_then ansiRest_def)
      next
        case True
        with Cons \<open>s = e # s1\<close> have s: "s = ESC # 91 # t" by simp
        show ?thesis
        proof (cases "dropWhile ?P t")
          case Nil
          with s show ?thesis
            by (simp add: rx rmatch_Chr_then tail ansiRest_def del: dropWhile_eq_Nil_conv)
        next
          case (Cons x u)
          from len [OF Cons] Cons s show ?thesis
            by (simp add: rx rmatch_Chr_then tail ansiRest_def)
        qed
      qed
    qed
  qed
qed

lemma ansiRest_shorter: "ansiRest s = Some u \<Longrightarrow> length u < length s"
proof -
  have "length (dropWhile P t) \<le> length t" for P and t :: jstring
    by (rule length_dropWhile_le)
  then have "dropWhile P t = x # u \<Longrightarrow> length u < length t" for P x and t :: jstring
    by (metis length_Cons not_less_eq_eq not_less)
  then show "ansiRest s = Some u \<Longrightarrow> length u < length s"
    by (fastforce simp: ansiRest_def split: list.splits if_splits)
qed

lemma replace_from_ansi:
  "replace_from rx_ansi [] i s =
     (case ansiRest s of
        None \<Rightarrow> (case s of [] \<Rightarrow> [] | x # xs \<Rightarrow> x # replace_from rx_ansi [] (Suc i) xs)
      | Some u \<Rightarrow> replace_from rx_ansi [] (i + (length s - length u)) u)"
  by (subst replace_from.simps)
     (auto simp: rmatch_rx_ansi split: option.splits dest: ansiRest_shorter)


lemma replace_from_ansi_index:
  "replace_from rx_ansi [] i s = replace_from rx_ansi [] j s"
proof (induction s arbitrary: i j rule: length_induct)
  case (1 s)
  show ?case
  proof (cases "ansiRest s")
    case None
    show ?thesis
    proof (cases s)
      case Nil
      have "replace_from rx_ansi [] k [] = []" for k
        by (subst replace_from_ansi) (simp add: ansiRest_def)
      with Nil show ?thesis by simp
    next
      case (Cons x xs)
      from None have n: "ansiRest (x # xs) = None" by (simp add: Cons)
      have "replace_from rx_ansi [] k (x # xs) = x # replace_from rx_ansi [] (Suc k) xs" for k
        by (subst replace_from_ansi) (simp add: n)
      moreover from 1 Cons
      have "replace_from rx_ansi [] (Suc i) xs = replace_from rx_ansi [] (Suc j) xs"
        by simp
      ultimately show ?thesis by (simp add: Cons)
    qed
  next
    case (Some u)
    have "replace_from rx_ansi [] k s = replace_from rx_ansi [] (k + (length s - length u)) u"
      for k
      by (subst replace_from_ansi) (simp add: Some)
    moreover from ansiRest_shorter [OF Some] 1
    have "replace_from rx_ansi [] (i + (length s - length u)) u
            = replace_from rx_ansi [] (j + (length s - length u)) u"
      by simp
    ultimately show ?thesis by simp
  qed
qed

lemma stripAnsi_unfold:
  "stripAnsi s =
     (case ansiRest s of
        None \<Rightarrow> (case s of [] \<Rightarrow> [] | x # xs \<Rightarrow> x # stripAnsi xs)
      | Some u \<Rightarrow> stripAnsi u)"
proof -
  have a: "replace_from rx_ansi [] (Suc 0) xs = replace_from rx_ansi [] 0 xs" for xs
    by (rule replace_from_ansi_index)
  have b: "replace_from rx_ansi [] (0 + (length s - length u)) u = replace_from rx_ansi [] 0 u"
    for u
    by (rule replace_from_ansi_index)
  show ?thesis
    unfolding stripAnsi_def replace_all_def
    by (subst replace_from_ansi) (simp only: a b)
qed

text \<open>A character that is no part of an escape sequence after its first character.\<close>

lemma ansiRest_append:
  assumes "s \<noteq> []"
    and "u = [] \<or> (hd u \<noteq> 91 \<and> hd u \<noteq> 109 \<and> hd u \<noteq> 59 \<and> \<not> isDigit (hd u))"
  shows "ansiRest (s @ u) = map_option (\<lambda>r. r @ u) (ansiRest s)"
proof -
  let ?P = "\<lambda>c. isDigit c \<or> c = 59"
  have drop: "dropWhile ?P (t @ u) = dropWhile ?P t @ u" if "dropWhile ?P t \<noteq> []" for t
    using that by (induction t) auto
  have drop': "dropWhile ?P (t @ u) = u" if "dropWhile ?P t = []" for t
    using that assms(2) by (induction t) (auto split: if_splits, cases u, auto)
  show ?thesis
  proof (cases s)
    case Nil
    with assms(1) show ?thesis by simp
  next
    case (Cons e s1)
    show ?thesis
    proof (cases s1)
      case Nil
      with Cons assms(2) show ?thesis
        by (cases u) (auto simp: ansiRest_def)
    next
      case (Cons b t)
      show ?thesis
      proof (cases "dropWhile ?P t")
        case Nil
        from drop' [OF Nil] Nil Cons \<open>s = e # s1\<close> assms(2) show ?thesis
          by (cases u) (auto simp: ansiRest_def simp del: dropWhile_eq_Nil_conv)
      next
        case (Cons x r)
        then have "dropWhile ?P (t @ u) = x # r @ u" using drop [of t] by simp
        with Cons \<open>s1 = b # t\<close> \<open>s = e # s1\<close> show ?thesis
          by (simp add: ansiRest_def)
      qed
    qed
  qed
qed

lemma stripAnsi_append:
  assumes "u = [] \<or> (hd u \<noteq> 91 \<and> hd u \<noteq> 109 \<and> hd u \<noteq> 59 \<and> \<not> isDigit (hd u))"
  shows "stripAnsi (s @ u) = stripAnsi s @ stripAnsi u"
proof (induction s rule: length_induct)
  case (1 s)
  show ?case
  proof (cases "s = []")
    case True
    have "stripAnsi [] = []" by (subst stripAnsi_unfold) (simp add: ansiRest_def)
    with True show ?thesis by simp
  next
    case False
    note rest = ansiRest_append [OF False assms]
    show ?thesis
    proof (cases "ansiRest s")
      case None
      from False obtain x xs where s: "s = x # xs" by (cases s) auto
      with 1 have "stripAnsi (xs @ u) = stripAnsi xs @ stripAnsi u" by simp
      with None rest s show ?thesis
        by (simp add: stripAnsi_unfold [of "x # xs @ u"] stripAnsi_unfold [of "x # xs"])
    next
      case (Some r)
      from ansiRest_shorter [OF Some] 1
      have "stripAnsi (r @ u) = stripAnsi r @ stripAnsi u" by simp
      with Some rest show ?thesis
        by (simp add: stripAnsi_unfold [of "s @ u"] stripAnsi_unfold [of s])
    qed
  qed
qed

lemma stripAnsi_spaces: "stripAnsi (replicate k SPACE) = replicate k SPACE"
proof (induction k)
  case 0
  show ?case by (subst stripAnsi_unfold) (simp add: ansiRest_def)
next
  case (Suc k)
  have "ansiRest (SPACE # replicate k SPACE) = None"
    by (simp add: ansiRest_def SPACE_def ESC_def split: list.splits)
  with Suc show ?case by (subst stripAnsi_unfold) simp
qed

lemma stripAnsi_on: "stripAnsi (ansi_boldOn @ ansi_cyanOn @ s) = stripAnsi s"
proof -
  have 1: "ansiRest (ansi_boldOn @ ansi_cyanOn @ s) = Some (ansi_cyanOn @ s)"
    by (simp add: ansiRest_def ansi_boldOn_def js_def isDigit_def)
  have 2: "ansiRest (ansi_cyanOn @ s) = Some s"
    by (simp add: ansiRest_def ansi_cyanOn_def js_def isDigit_def)
  show ?thesis
    by (subst stripAnsi_unfold, simp add: 1, subst stripAnsi_unfold, simp add: 2)
qed

lemma stripAnsi_off: "stripAnsi (ansi_boldOff @ ansi_cyanOff) = []"
  by code_simp

lemma stripAnsi_padded:
  "stripAnsi (s @ replicate k SPACE) = stripAnsi s @ replicate k SPACE"
proof -
  have "stripAnsi (s @ replicate k SPACE) = stripAnsi s @ stripAnsi (replicate k SPACE)"
    by (rule stripAnsi_append) (cases k, simp_all add: SPACE_def isDigit_def)
  then show ?thesis by (simp add: stripAnsi_spaces)
qed

lemma visible_cell_width:
  assumes "i < length widths" and "visibleLength (cellAt row i) \<le> widths ! i"
  shows "length (stripAnsi (renderCells widths row isHeader ! i)) = widths ! i"
proof -
  let ?padded = "renderInline (cellAt row i)
                   @ replicate (widths ! i - visibleLength (cellAt row i)) SPACE"
  have p: "length (stripAnsi ?padded) = widths ! i"
    using assms(2) by (simp add: stripAnsi_padded visibleLength_def)
  show ?thesis
  proof (cases isHeader)
    case False
    with p assms(1) show ?thesis by (simp add: renderCells_nth)
  next
    case True
    have "stripAnsi (?padded @ ansi_boldOff @ ansi_cyanOff)
            = stripAnsi ?padded @ stripAnsi (ansi_boldOff @ ansi_cyanOff)"
      by (rule stripAnsi_append) (simp add: ansi_boldOff_def ESC_def isDigit_def)
    then have "stripAnsi (ansi_boldOn @ ansi_cyanOn @ ?padded @ ansi_boldOff @ ansi_cyanOff)
                 = stripAnsi ?padded"
      by (simp add: stripAnsi_on stripAnsi_off)
    with p True assms(1) show ?thesis by (simp add: renderCells_nth)
  qed
qed

subsection \<open>Column sizing\<close>

text \<open>
  Claim C2.  For every table state, the rendered table has as many columns as
  the longest of the header row and the data rows has cells (the length of the header
  row when no data row is longer).  The width of column \<open>i\<close> is the maximum, over the
  header and the data rows that have a cell \<open>i\<close>, of the length of that cell once styled
  and stripped of escape sequences, and at least 3.  The rendered table is the header
  line, the separator line and one line for each data row; each of these lines has one
  cell for each column between pipes, and cell \<open>i\<close>, stripped of escape sequences, is
  exactly as long as the width of column \<open>i\<close> (in the separator line it is that many
  dashes).
\<close>

theorem table_column_sizing:
  "length (tableWidths table) = Max (length ` set (allRows table))
   \<and> ((\<forall>row \<in> set (rows table). length row \<le> length (header table))
        \<longrightarrow> length (tableWidths table) = length (header table))
   \<and> (\<forall>i < length (tableWidths table).
         tableWidths table ! i
           = Max (insert 3 ((\<lambda>row. visibleLength (row ! i))
                              ` {row \<in> set (allRows table). i < length row}))
         \<and> 3 \<le> tableWidths table ! i)
   \<and> renderTable table
       = join [NL] (renderRow (tableWidths table) (header table) True
                    # renderSeparator (tableWidths table)
                    # map (\<lambda>row. renderRow (tableWidths table) row False) (rows table))
   \<and> (\<forall>row \<in> set (allRows table). \<forall>isHeader.
         renderRow (tableWidths table) row isHeader
           = js ''| '' @ join (js '' | '') (renderCells (tableWidths table) row isHeader)
               @ js '' |''
         \<and> length (renderCells (tableWidths table) row isHeader) = length (tableWidths table)
         \<and> (\<forall>i < length (tableWidths table).
               length (stripAnsi (renderCells (tableWidths table) row isHeader ! i))
                 = tableWidths table ! i))
   \<and> renderSeparator (tableWidths table)
       = js ''| '' @ join (js '' | '') (map (\<lambda>width. replicate width 45) (tableWidths table))
           @ js '' |''"
proof -
  have short: "length (tableWidths table) = length (header table)"
    if "\<forall>row \<in> set (rows table). length row \<le> length (header table)"
  proof -
    have "Max (length ` set (allRows table)) = length (header table)"
      using that by (intro Max_eqI) (auto simp: allRows_def)
    then show ?thesis by (simp add: tableWidths_length)
  qed
  have floor: "3 \<le> tableWidths table ! i" if "i < length (tableWidths table)" for i
    unfolding tableWidths_nth [OF that] by (intro Max_ge) simp_all
  have vis: "length (stripAnsi (renderCells (tableWidths table) row isHeader ! i))
               = tableWidths table ! i"
    if "row \<in> set (allRows table)" and "i < length (tableWidths table)" for row isHeader i
    using that by (intro visible_cell_width cell_fits)
  show ?thesis
    using short floor vis
    by (simp add: tableWidths_length [symmetric] tableWidths_nth renderTable_def Let_def
          renderRow_def renderSeparator_def renderCells_length)
qed

theorem table_column_sizing_witness:
  "tableWidths \<lparr>header = [js ''A'', js ''BB''], rows = [[js ''1'', js ''22'']]\<rparr> = [3, 3]
   \<and> length (stripAnsi (renderCells [3, 3] [js ''1'', js ''22''] False ! 1)) = 3
   \<and> length (stripAnsi (renderCells [3, 3] [js ''A'', js ''BB''] True ! 0)) = 3"
proof -
  have w: "tableWidths \<lparr>header = [js ''A'', js ''BB''], rows = [[js ''1'', js ''22'']]\<rparr> = [3, 3]"
    by code_simp
  from table_column_sizing [of "\<lparr>header = [js ''A'', js ''BB''], rows = [[js ''1'', js ''22'']]\<rparr>"]
  show ?thesis
    unfolding w by (simp add: allRows_def)
qed

theorem table_column_count_counterexample:
  "fst (write_chunk createMarkdownRenderer
          (js ''A|'' @ [NL] @ js ''-|-'' @ [NL] @ js ''1|2'' @ [NL]))
     = \<lparr>buffer = [], pendingLines = [], inCodeBlock = False,
        tableState = Some \<lparr>header = [js ''A''], rows = [[js ''1'', js ''2'']]\<rparr>\<rparr>
   \<and> length (header \<lparr>header = [js ''A''], rows = [[js ''1'', js ''2'']]\<rparr>) = 1
   \<and> tableWidths \<lparr>header = [js ''A''], rows = [[js ''1'', js ''2'']]\<rparr> = [3, 3]
   \<and> renderTable \<lparr>header = [js ''A''], rows = [[js ''1'', js ''2'']]\<rparr>
       = js ''| '' @ ansi_boldOn @ ansi_cyanOn @ js ''A  '' @ ansi_boldOff @ ansi_cyanOff
           @ js '' | '' @ ansi_boldOn @ ansi_cyanOn @ js ''   '' @ ansi_boldOff @ ansi_cyanOff
           @ js '' |'' @ [NL]
           @ js ''| --- | --- |'' @ [NL]
           @ js ''| 1   | 2   |''"
proof -
  have s: "fst (write_chunk createMarkdownRenderer
                 (js ''A|'' @ [NL] @ js ''-|-'' @ [NL] @ js ''1|2'' @ [NL]))
     = \<lparr>buffer = [], pendingLines = [], inCodeBlock = False,
        tableState = Some \<lparr>header = [js ''A''], rows = [[js ''1'', js ''2'']]\<rparr>\<rparr>"
    by code_simp
  have w: "tableWidths \<lparr>header = [js ''A''], rows = [[js ''1'', js ''2'']]\<rparr> = [3, 3]"
    by code_simp
  have c: "renderCells [3, 3] [js ''A''] True
             = [ansi_boldOn @ ansi_cyanOn @ js ''A  '' @ ansi_boldOff @ ansi_cyanOff,
                ansi_boldOn @ ansi_cyanOn @ js ''   '' @ ansi_boldOff @ ansi_cyanOff]"
    "renderCells [3, 3] [js ''1'', js ''2''] False = [js ''1  '', js ''2  '']"
    by code_simp+
  have t: "renderTable \<lparr>header = [js ''A''], rows = [[js ''1'', js ''2'']]\<rparr>
       = js ''| '' @ ansi_boldOn @ ansi_cyanOn @ js ''A  '' @ ansi_boldOff @ ansi_cyanOff
           @ js '' | '' @ ansi_boldOn @ ansi_cyanOn @ js ''   '' @ ansi_boldOff @ ansi_cyanOff
           @ js '' |'' @ [NL]
           @ js ''| --- | --- |'' @ [NL]
           @ js ''| 1   | 2   |''"
    by (simp add: renderTable_def w renderRow_def c renderSeparator_def)
       (simp add: js_def NL_def eval_nat_numeral)
  from s w t show ?thesis by simp
qed

subsection \<open>Flush with a block still open\<close>

lemma processPending_stuck: "drainStep final (processPending final r) = None"
proof (induction final r rule: processPending.induct)
  case (1 final r)
  show ?case
  proof (cases "drainStep final r")
    case None
    then show ?thesis by (simp add: processPending_None)
  next
    case (Some r')
    with 1 show ?thesis by (simp add: processPending_Some)
  qed
qed

lemma flush_open_table:
  assumes "tableState state = Some table" and "\<not> inCodeBlock state"
    and "pendingLines state = []"
  shows "flush (state, out) =
           (if buffer state = []
            then (state\<lparr>tableState := None\<rparr>, out @ [renderTable table @ [NL]])
            else if isTableRow (buffer state) \<and> \<not> isTableSeparator (buffer state)
            then (state\<lparr>buffer := [], tableState := None\<rparr>,
                  out @ [renderTable (table\<lparr>rows := rows table @ [parseTableRow (buffer state)]\<rparr>)
                         @ [NL]])
            else (fst (flush (state\<lparr>tableState := None\<rparr>, [])),
                  out @ [renderTable table @ [NL]]
                      @ snd (flush (state\<lparr>tableState := None\<rparr>, []))))"
proof (cases "buffer state = []")
  case True
  with assms have "processPending True (pushBuffer (state, out)) = (state, out)"
    by (simp add: pushBuffer_def processPending_None drainStep_None_iff)
  with True assms show ?thesis
    by (simp add: flush_def closeTable_def closeCode_def)
next
  case False
  let ?pushed = "state\<lparr>pendingLines := [buffer state], buffer := []\<rparr>"
  have p: "pushBuffer (state, out) = (?pushed, out)"
    using False assms(3) by (simp add: pushBuffer_def)
  show ?thesis
  proof (cases "isTableRow (buffer state) \<and> \<not> isTableSeparator (buffer state)")
    case True
    let ?t = "table\<lparr>rows := rows table @ [parseTableRow (buffer state)]\<rparr>"
    have "drainStep True (?pushed, out)
            = Some (?pushed\<lparr>tableState := Some ?t, pendingLines := []\<rparr>, out)"
      using True assms(1) by (simp add: drainStep_table_row)
    moreover have "drainStep True (?pushed\<lparr>tableState := Some ?t, pendingLines := []\<rparr>, out) = None"
      by (simp add: drainStep_None_iff)
    ultimately have "processPending True (?pushed, out)
                       = (?pushed\<lparr>tableState := Some ?t, pendingLines := []\<rparr>, out)"
      by (simp add: processPending_Some processPending_None)
    with True False assms p show ?thesis
      by (simp add: flush_def closeTable_def closeCode_def)
  next
    case notrow: False
    have "drainStep True (?pushed, out)
            = Some (?pushed\<lparr>tableState := None\<rparr>, out @ [renderTable table @ [NL]])"
      using notrow assms(1) by (simp add: drainStep_table_end)
    then have "processPending True (?pushed, out)
                 = processPending True (?pushed\<lparr>tableState := None\<rparr>,
                                        out @ [renderTable table @ [NL]])"
      by (rule processPending_Some)
    moreover have "pushBuffer (state\<lparr>tableState := None\<rparr>, out @ [renderTable table @ [NL]])
                     = (?pushed\<lparr>tableState := None\<rparr>, out @ [renderTable table @ [NL]])"
      using False assms(3) by (simp add: pushBuffer_def)
    ultimately have "processPending True (pushBuffer (state, out))
                 = processPending True (pushBuffer (state\<lparr>tableState := None\<rparr>,
                                                     out @ [renderTable table @ [NL]]))"
      by (simp only: p)
    then have "flush (state, out)
                 = flush (state\<lparr>tableState := None\<rparr>, out @ [renderTable table @ [NL]])"
      by (simp add: flush_def)
    also have "\<dots> = (fst (flush (state\<lparr>tableState := None\<rparr>, [])),
                      (out @ [renderTable table @ [NL]])
                        @ snd (flush (state\<lparr>tableState := None\<rparr>, [])))"
      by (rule flush_out)
    finally have e: "flush (state, out) =
                 (fst (flush (state\<lparr>tableState := None\<rparr>, [])),
                  (out @ [renderTable table @ [NL]])
                    @ snd (flush (state\<lparr>tableState := None\<rparr>, [])))" .
    show ?thesis
      by (simp only: e False notrow if_False append_assoc)
  qed
qed

lemma flush_open_code:
  assumes "inCodeBlock state" and "tableState state = None" and "pendingLines state = []"
  shows "flush (state, out) =
           (state\<lparr>buffer := [], inCodeBlock := False\<rparr>,
            out @ (if buffer state = [] \<or> isFence (buffer state) then []
                   else [buffer state @ [NL]])
                @ [ansi_codeOff @ [NL]])"
proof (cases "buffer state = []")
  case True
  with assms have "processPending True (pushBuffer (state, out)) = (state, out)"
    by (simp add: pushBuffer_def processPending_None drainStep_None_iff)
  with True assms show ?thesis
    by (simp add: flush_def closeTable_def closeCode_def)
next
  case False
  let ?pushed = "state\<lparr>pendingLines := [buffer state], buffer := []\<rparr>"
  have p: "pushBuffer (state, out) = (?pushed, out)"
    using False assms(3) by (simp add: pushBuffer_def)
  have step: "drainStep True (?pushed, out) =
       Some (if isFence (buffer state)
             then (?pushed\<lparr>pendingLines := [], inCodeBlock := False\<rparr>,
                   out @ [ansi_codeOff @ [NL]])
             else (?pushed\<lparr>pendingLines := []\<rparr>, out @ [buffer state @ [NL]]))"
    using assms(1,2) by (simp add: drainStep_code)
  show ?thesis
  proof (cases "isFence (buffer state)")
    case True
    with step have "drainStep True (?pushed, out)
                = Some (?pushed\<lparr>pendingLines := [], inCodeBlock := False\<rparr>,
                        out @ [ansi_codeOff @ [NL]])"
      by simp
    moreover have "drainStep True (?pushed\<lparr>pendingLines := [], inCodeBlock := False\<rparr>,
                                   out @ [ansi_codeOff @ [NL]]) = None"
      by (simp add: drainStep_None_iff)
    ultimately have "processPending True (?pushed, out)
                = (?pushed\<lparr>pendingLines := [], inCodeBlock := False\<rparr>, out @ [ansi_codeOff @ [NL]])"
      by (simp only: processPending_Some processPending_None)
    with True False assms p show ?thesis
      by (simp add: flush_def closeTable_def closeCode_def)
  next
    case nofence: False
    with step have "drainStep True (?pushed, out)
                = Some (?pushed\<lparr>pendingLines := []\<rparr>, out @ [buffer state @ [NL]])"
      by simp
    moreover have "drainStep True (?pushed\<lparr>pendingLines := []\<rparr>, out @ [buffer state @ [NL]])
                     = None"
      by (simp add: drainStep_None_iff)
    ultimately have "processPending True (?pushed, out)
                = (?pushed\<lparr>pendingLines := []\<rparr>, out @ [buffer state @ [NL]])"
      by (simp only: processPending_Some processPending_None)
    with nofence False assms p show ?thesis
      by (simp add: flush_def closeTable_def closeCode_def)
  qed
qed

text \<open>
  Claim C7.  After the final drain, \<open>flush\<close> renders and emits the table that is still
  open, with the rows collected so far, and clears it; then, if a code block is still
  open, it emits the style reset (which holds no backtick: no fence is made up) and
  clears the flag.  So, called on a renderer as \<open>write\<close> can leave it, with a table open:
  the table is emitted as it is (with the buffered rest as its last row, when that is a
  row), and what else is buffered is rendered after it; with a code block open: the
  buffered rest, unless it is a fence line, is emitted as it is, then one style reset.
  In both cases no table and no code block is open afterwards.
\<close>

theorem flush_closes_open_blocks:
  "(case processPending True (pushBuffer r) of (drained, out1) \<Rightarrow>
      flush r =
        (drained\<lparr>tableState := None, inCodeBlock := False\<rparr>,
         out1 @ (case tableState drained of
                   Some table \<Rightarrow> [renderTable table @ [NL]] | None \<Rightarrow> [])
              @ (if inCodeBlock drained then [ansi_codeOff @ [NL]] else [])))
   \<and> (reach (state, out) \<and> drainStep False (state, out) = None
        \<and> tableState state = Some table \<longrightarrow>
        flush (state, out) =
          (if buffer state = []
           then (state\<lparr>tableState := None\<rparr>, out @ [renderTable table @ [NL]])
           else if isTableRow (buffer state) \<and> \<not> isTableSeparator (buffer state)
           then (state\<lparr>buffer := [], tableState := None\<rparr>,
                 out @ [renderTable (table\<lparr>rows := rows table @ [parseTableRow (buffer state)]\<rparr>)
                        @ [NL]])
           else (fst (flush (state\<lparr>tableState := None\<rparr>, [])),
                 out @ [renderTable table @ [NL]]
                     @ snd (flush (state\<lparr>tableState := None\<rparr>, [])))))
   \<and> (reach (state, out) \<and> drainStep False (state, out) = None \<and> inCodeBlock state \<longrightarrow>
        flush (state, out) =
          (state\<lparr>buffer := [], inCodeBlock := False\<rparr>,
           out @ (if buffer state = [] \<or> isFence (buffer state) then []
                  else [buffer state @ [NL]])
               @ [ansi_codeOff @ [NL]]))
   \<and> 96 \<notin> set (ansi_codeOff @ [NL])"
proof -
  have a: "closeCode (closeTable (drained, out1)) =
        (drained\<lparr>tableState := None, inCodeBlock := False\<rparr>,
         out1 @ (case tableState drained of
                   Some table \<Rightarrow> [renderTable table @ [NL]] | None \<Rightarrow> [])
              @ (if inCodeBlock drained then [ansi_codeOff @ [NL]] else []))" for drained out1
    by (cases "tableState drained") (auto simp: closeCode_def closeTable_def)
  have 1: "case processPending True (pushBuffer r) of (drained, out1) \<Rightarrow>
      flush r =
        (drained\<lparr>tableState := None, inCodeBlock := False\<rparr>,
         out1 @ (case tableState drained of
                   Some table \<Rightarrow> [renderTable table @ [NL]] | None \<Rightarrow> [])
              @ (if inCodeBlock drained then [ansi_codeOff @ [NL]] else []))"
    using a by (auto simp: flush_def split: prod.splits)
  have 2: "flush (state, out) =
          (if buffer state = []
           then (state\<lparr>tableState := None\<rparr>, out @ [renderTable table @ [NL]])
           else if isTableRow (buffer state) \<and> \<not> isTableSeparator (buffer state)
           then (state\<lparr>buffer := [], tableState := None\<rparr>,
                 out @ [renderTable (table\<lparr>rows := rows table @ [parseTableRow (buffer state)]\<rparr>)
                        @ [NL]])
           else (fst (flush (state\<lparr>tableState := None\<rparr>, [])),
                 out @ [renderTable table @ [NL]]
                     @ snd (flush (state\<lparr>tableState := None\<rparr>, []))))"
    if "reach (state, out)" "drainStep False (state, out) = None" "tableState state = Some table"
  proof -
    from reach_mutex [OF that(1)] that(3) have "\<not> inCodeBlock state" by simp
    moreover from that(2,3) have "pendingLines state = []"
      by (simp add: drainStep_None_iff)
    ultimately show ?thesis using that(3) by (intro flush_open_table)
  qed
  have 3: "flush (state, out) =
          (state\<lparr>buffer := [], inCodeBlock := False\<rparr>,
           out @ (if buffer state = [] \<or> isFence (buffer state) then []
                  else [buffer state @ [NL]])
               @ [ansi_codeOff @ [NL]])"
    if "reach (state, out)" "drainStep False (state, out) = None" "inCodeBlock state"
  proof -
    from reach_mutex [OF that(1)] that(3) have "tableState state = None" by simp
    moreover from that(2,3) have "pendingLines state = []"
      by (simp add: drainStep_None_iff)
    ultimately show ?thesis using that(3) by (intro flush_open_code)
  qed
  from 1 2 3 no_fence_in_reset show ?thesis by blast
qed

theorem flush_closes_open_blocks_witness:
  "reach (\<lparr>buffer = js ''1|22'', pendingLines = [], inCodeBlock = False,
           tableState = Some \<lparr>header = [js ''A'', js ''BB''], rows = []\<rparr>\<rparr>, [])
   \<and> flush (\<lparr>buffer = js ''1|22'', pendingLines = [], inCodeBlock = False,
              tableState = Some \<lparr>header = [js ''A'', js ''BB''], rows = []\<rparr>\<rparr>, [])
     = (\<lparr>buffer = [], pendingLines = [], inCodeBlock = False, tableState = None\<rparr>,
        [renderTable \<lparr>header = [js ''A'', js ''BB''], rows = [[js ''1'', js ''22'']]\<rparr> @ [NL]])
   \<and> reach (\<lparr>buffer = [], pendingLines = [], inCodeBlock = True, tableState = None\<rparr>,
            [ansi_codeOn @ [NL]])
   \<and> flush (\<lparr>buffer = [], pendingLines = [], inCodeBlock = True, tableState = None\<rparr>,
            [ansi_codeOn @ [NL]])
     = (\<lparr>buffer = [], pendingLines = [], inCodeBlock = False, tableState = None\<rparr>,
        [ansi_codeOn @ [NL], ansi_codeOff @ [NL]])"
proof -
  have w1: "write_chunk createMarkdownRenderer (js ''A|BB'' @ [NL] @ js ''-|-'' @ [NL] @ js ''1|22'')
              = (\<lparr>buffer = js ''1|22'', pendingLines = [], inCodeBlock = False,
                  tableState = Some \<lparr>header = [js ''A'', js ''BB''], rows = []\<rparr>\<rparr>, [])"
    by code_simp
  have w2: "write_chunk createMarkdownRenderer (js ''```'' @ [NL])
              = (\<lparr>buffer = [], pendingLines = [], inCodeBlock = True, tableState = None\<rparr>,
                 [ansi_codeOn @ [NL]])"
    by code_simp
  have r1: "reach (\<lparr>buffer = js ''1|22'', pendingLines = [], inCodeBlock = False,
           tableState = Some \<lparr>header = [js ''A'', js ''BB''], rows = []\<rparr>\<rparr>, [])"
    using reach_write_chunk [OF reach_init, of "js ''A|BB'' @ [NL] @ js ''-|-'' @ [NL] @ js ''1|22''"]
    unfolding w1 .
  have r2: "reach (\<lparr>buffer = [], pendingLines = [], inCodeBlock = True, tableState = None\<rparr>,
            [ansi_codeOn @ [NL]])"
    using reach_write_chunk [OF reach_init, of "js ''```'' @ [NL]"] unfolding w2 .
  have f: "isTableRow (js ''1|22'')" "\<not> isTableSeparator (js ''1|22'')"
    "parseTableRow (js ''1|22'') = [js ''1'', js ''22'']" "js ''1|22'' \<noteq> []"
    by code_simp+
  have s: "drainStep False (\<lparr>buffer = js ''1|22'', pendingLines = [], inCodeBlock = False,
           tableState = Some \<lparr>header = [js ''A'', js ''BB''], rows = []\<rparr>\<rparr>, []) = None"
    "drainStep False (\<lparr>buffer = [], pendingLines = [], inCodeBlock = True, tableState = None\<rparr>,
            [ansi_codeOn @ [NL]]) = None"
    by (simp_all add: drainStep_None_iff)
  from flush_closes_open_blocks [of _ "\<lparr>buffer = js ''1|22'', pendingLines = [],
           inCodeBlock = False,
           tableState = Some \<lparr>header = [js ''A'', js ''BB''], rows = []\<rparr>\<rparr>" "[]"
           "\<lparr>header = [js ''A'', js ''BB''], rows = []\<rparr>"]
    flush_closes_open_blocks [of _ "\<lparr>buffer = [], pendingLines = [], inCodeBlock = True,
           tableState = None\<rparr>" "[ansi_codeOn @ [NL]]"]
    r1 r2 f s
  show ?thesis by simp
qed

end
